theory Spec2Isabelle
  imports Complex_Main "HOL-Library.Word" "HOL-Library.Signed_Division"
begin

section \<open>Machine integers of the worker\<close>

text \<open>
  The worker computes with C++ \<open>int\<close> (32 bits, signed). Signed overflow has no defined
  result in C++, so every \<open>int\<close> operation of the block arithmetic is modelled as a
  checked operation on mathematical integers: \<open>None\<close> where the exact result leaves the
  range of \<open>int\<close>. Values that come from GDAL (\<open>GetRasterXSize\<close>, \<open>GetRasterYSize\<close>,
  \<open>GetRasterCount\<close>) are 32-bit words read as two's complement, so every input is in range.
\<close>

type_synonym int32 = "32 word"

definition INT_MAX :: int where
  "INT_MAX = 2147483647"

definition INT_MIN :: int where
  "INT_MIN = - 2147483648"

definition in_int :: "int \<Rightarrow> bool" where
  "in_int v \<longleftrightarrow> INT_MIN \<le> v \<and> v \<le> INT_MAX"

definition int_add :: "int \<Rightarrow> int \<Rightarrow> int option" where
  "int_add a b = (if in_int (a + b) then Some (a + b) else None)"

definition int_sub :: "int \<Rightarrow> int \<Rightarrow> int option" where
  "int_sub a b = (if in_int (a - b) then Some (a - b) else None)"

definition int_mul :: "int \<Rightarrow> int \<Rightarrow> int option" where
  "int_mul a b = (if in_int (a * b) then Some (a * b) else None)"

text \<open>C++ division truncates towards zero; it is undefined for a zero divisor and for
  \<open>INT_MIN / -1\<close>.\<close>

definition int_div :: "int \<Rightarrow> int \<Rightarrow> int option" where
  "int_div a b = (if b = 0 \<or> \<not> in_int (a sdiv b) then None else Some (a sdiv b))"

text \<open>\<open>std::atomic<int>::fetch_add\<close> wraps around (it has no undefined behaviour).\<close>

definition wrap_int :: "int \<Rightarrow> int" where
  "wrap_int v = (v + 2147483648) mod 4294967296 - 2147483648"

section \<open>The worker's signals and GDAL calls\<close>

text \<open>
  A run of the worker is observed as the sequence of its Qt signals (\<open>logMessage\<close>,
  \<open>progressUpdated\<close>, \<open>finished\<close>), of its calls into GDAL, and of its reads of the
  cancellation flag \<open>isConverting\<close>, in program order.

  \<open>progressUpdated\<close> carries a \<open>float\<close>. The quotient
  \<open>static_cast<float>(blocksCompleted) / totalBlocks\<close> is modelled by the exact rational
  quotient; rounding to \<open>float\<close> is monotone and keeps 0 and 1, so order and the bounds 0
  and 1 carry over to the rounded values.
\<close>

datatype ProcessingMode = CPU | GPU | OtherMode

datatype GDALRWFlag = GF_Read | GF_Write

datatype CPLErr = CE_None | CE_Failure

datatype dataset = Input | Output

datatype event =
    LogMessage string
  | ProgressUpdated rat
  | Finished bool string
  | GDALOpenEx string
  | GetDriverByName string
  | CSLSetNameValue string string
  | Create string int int int
  | CreateCopy string
  | SetProjection
  | SetGeoTransform
  | RasterIO GDALRWFlag int int int int int CPLErr
  | GDALClose dataset
  | CSLDestroy
  | Load bool

text \<open>The fields of \<open>Worker\<close>. \<open>gdalOptions\<close> is the \<open>QMap\<close> in iteration order.\<close>

record job =
  inputFile :: string
  outputFile :: string
  inputDriverName :: string
  outputDriverName :: string
  gdalOptions :: "(string \<times> string) list"
  processingMode :: ProcessingMode
  numCores :: int

text \<open>
  The driver behind \<open>CreateCopy\<close> owns its copy loop: it either returns (a dataset, or
  null with a last error message), or calls the progress callback with a fraction and
  goes on according to what the callback returned.
\<close>

datatype copy_driver =
    CopyReturn "string option"
  | CopyProgress rat "bool \<Rightarrow> copy_driver"

text \<open>
  What GDAL answers during one job. An error is \<open>Some m\<close>, with \<open>m\<close> the text that
  \<open>CPLGetLastErrorMsg\<close> returns after the failed call. \<open>Read_error\<close> and
  \<open>Write_error\<close> answer \<open>RasterIO\<close> at offset \<open>x y\<close> of a band.
\<close>

record gdal =
  OpenEx_error :: "string option"
  driver_available :: bool
  DCAP_CREATE :: bool
  DCAP_CREATECOPY :: bool
  RasterCount :: int32
  RasterXSize :: int32
  RasterYSize :: int32
  Create_error :: "string option"
  ProjectionRef :: bool
  GeoTransform :: bool
  Read_error :: "int \<Rightarrow> int \<Rightarrow> int \<Rightarrow> string option"
  Write_error :: "int \<Rightarrow> int \<Rightarrow> int \<Rightarrow> string option"
  CreateCopy_driver :: copy_driver

text \<open>
  The cancellation flag \<open>isConverting\<close> starts true, \<open>requestInterruption\<close> stores
  false from another thread, and nothing stores true again. The store falls between two
  events of the conversion thread: \<open>Some n\<close> says that it comes after \<open>n\<close> more events,
  \<open>None\<close> that the job is never cancelled. A read of the flag is an event itself. (The
  read inside \<open>BlockProcessor::run\<close> happens on a pool thread and decides nothing.)
\<close>

type_synonym flag = "nat option"

definition isConverting :: "flag \<Rightarrow> bool" where
  "isConverting c = (case c of None \<Rightarrow> True | Some n \<Rightarrow> 0 < n)"

text \<open>The flag as it stands once the events \<open>evs\<close> have happened.\<close>

definition flag_after :: "event list \<Rightarrow> flag \<Rightarrow> flag" where
  "flag_after evs c = (case c of None \<Rightarrow> None | Some n \<Rightarrow> Some (n - length evs))"

text \<open>
  How a piece of the worker ends: control goes on (\<open>Go\<close>), the enclosing function has
  returned a value (\<open>Ret\<close>), or the run has left defined behaviour (\<open>Undefined\<close>: a
  signed overflow, a null band, a negative vector size).
\<close>

datatype ctl = Go | Ret bool | Undefined

section \<open>Texts\<close>

definition newline :: string where
  "newline = [CHR 0x0A]"

function string_of_nat :: "nat \<Rightarrow> string" where
  "string_of_nat n =
     (if n < 10 then [char_of (48 + n)]
      else string_of_nat (n div 10) @ [char_of (48 + n mod 10)])"
  by pat_completeness auto
termination
  by (relation "measure id") auto

declare string_of_nat.simps [simp del]

definition QString_number :: "int \<Rightarrow> string" where
  "QString_number i =
     (if i < 0 then CHR ''-'' # string_of_nat (nat (- i)) else string_of_nat (nat i))"

definition cancelled_msg :: string where
  "cancelled_msg = ''Conversion cancelled by user.''"

definition read_failed_msg :: "string \<Rightarrow> string" where
  "read_failed_msg m = ''Failed to read data from input dataset.'' @ newline @ ''GDAL Error: '' @ m"

definition write_failed_msg :: "string \<Rightarrow> string" where
  "write_failed_msg m = ''Failed to write data to output dataset.'' @ newline @ ''GDAL Error: '' @ m"

section \<open>Worker::processData\<close>

text \<open>The two band loops of one tile: \<open>for (bandIndex = 1; bandIndex <= nBands; ++bandIndex)\<close>.\<close>

function read_bands ::
  "gdal \<Rightarrow> int \<Rightarrow> int \<Rightarrow> int \<Rightarrow> int \<Rightarrow> int \<Rightarrow> int \<Rightarrow> ctl \<times> event list" where
  "read_bands g x y w h nBands bandIndex =
     (if bandIndex \<le> nBands then
        (case Read_error g x y bandIndex of
           Some m \<Rightarrow>
             (Ret False,
              [RasterIO GF_Read x y w h bandIndex CE_Failure, Finished False (read_failed_msg m)])
         | None \<Rightarrow>
             (case int_add bandIndex 1 of
                None \<Rightarrow> (Undefined, [RasterIO GF_Read x y w h bandIndex CE_None])
              | Some b \<Rightarrow>
                  (case read_bands g x y w h nBands b of
                     (r, evs) \<Rightarrow> (r, RasterIO GF_Read x y w h bandIndex CE_None # evs))))
      else (Go, []))"
  by pat_completeness auto
termination
  by (relation "measure (\<lambda>(g, x, y, w, h, nBands, bandIndex). nat (nBands + 1 - bandIndex))")
     (auto simp: int_add_def split: if_splits)

declare read_bands.simps [simp del]

function write_bands ::
  "gdal \<Rightarrow> int \<Rightarrow> int \<Rightarrow> int \<Rightarrow> int \<Rightarrow> int \<Rightarrow> int \<Rightarrow> ctl \<times> event list" where
  "write_bands g x y w h nBands bandIndex =
     (if bandIndex \<le> nBands then
        (case Write_error g x y bandIndex of
           Some m \<Rightarrow>
             (Ret False,
              [RasterIO GF_Write x y w h bandIndex CE_Failure, Finished False (write_failed_msg m)])
         | None \<Rightarrow>
             (case int_add bandIndex 1 of
                None \<Rightarrow> (Undefined, [RasterIO GF_Write x y w h bandIndex CE_None])
              | Some b \<Rightarrow>
                  (case write_bands g x y w h nBands b of
                     (r, evs) \<Rightarrow> (r, RasterIO GF_Write x y w h bandIndex CE_None # evs))))
      else (Go, []))"
  by pat_completeness auto
termination
  by (relation "measure (\<lambda>(g, x, y, w, h, nBands, bandIndex). nat (nBands + 1 - bandIndex))")
     (auto simp: int_add_def split: if_splits)

declare write_bands.simps [simp del]

text \<open>
  The body of the inner loop up to the writes: read every band, hand the buffers to the
  pool (the placeholder \<open>BlockProcessor\<close> changes nothing), look at the flag, write
  every band. \<open>std::vector<...> bandData(nBands)\<close> throws for a negative count. The
  buffer of a band holds at most 256 * 256 pixels of at most 16 bytes, so \<open>nPixels\<close> and
  \<open>nBytes\<close> stay in range.
\<close>

definition tile_body ::
  "gdal \<Rightarrow> int \<Rightarrow> int \<Rightarrow> int \<Rightarrow> int \<Rightarrow> int \<Rightarrow> flag \<Rightarrow> ctl \<times> event list" where
  "tile_body g x y w h nBands c =
     (if nBands < 0 then (Undefined, [])
      else
        (case read_bands g x y w h nBands 1 of
           (Go, evs) \<Rightarrow>
             (if \<not> isConverting (flag_after evs c) then
                (Ret False, evs @ [Load False, Finished False cancelled_msg])
              else
                (case write_bands g x y w h nBands 1 of
                   (r, evs2) \<Rightarrow> (r, evs @ Load True # evs2)))
         | (r, evs) \<Rightarrow> (r, evs)))"

text \<open>
  One pass through a \<open>for\<close> loop either ends the loop (\<open>Stop\<close>, with how the loop ends,
  its events and \<open>blocksCompleted\<close>) or reaches the increment (\<open>Again\<close>, with the events
  of the pass, \<open>blocksCompleted\<close> and the next value of the loop variable).
\<close>

datatype step = Stop "ctl \<times> event list \<times> int" | Again "event list" int int

text \<open>
  One pass of the inner loop
  \<open>for (x = 0; x < nXSize && isConverting.load(); x += blockSizeX)\<close> at \<open>x\<close>, with
  \<open>blocksCompleted = done\<close>: the condition (the flag is read only when \<open>x < nXSize\<close>),
  the tile, the progress update, the increment.
\<close>

definition col_step ::
  "gdal \<Rightarrow> int \<Rightarrow> int \<Rightarrow> int \<Rightarrow> int \<Rightarrow> int \<Rightarrow> int \<Rightarrow> int \<Rightarrow> flag \<Rightarrow> step" where
  "col_step g nXSize nBands totalBlocks y nYBlockSize x done c =
     (if x < nXSize then
        (if \<not> isConverting c then Stop (Go, [Load False], done)
         else
           (case int_sub nXSize x of
              None \<Rightarrow> Stop (Undefined, [Load True], done)
            | Some remaining \<Rightarrow>
                (case tile_body g x y (min 256 remaining) nYBlockSize nBands
                        (flag_after [Load True] c) of
                   (Go, evs) \<Rightarrow>
                     (let done' = wrap_int (done + 1);
                          tile = Load True # evs
                            @ [ProgressUpdated (of_int done' / of_int totalBlocks)]
                      in case int_add x 256 of
                           None \<Rightarrow> Stop (Undefined, tile, done')
                         | Some x' \<Rightarrow> Again tile done' x')
                 | (r, evs) \<Rightarrow> Stop (r, Load True # evs, done))))
      else Stop (Go, [], done))"

function cols_loop ::
  "gdal \<Rightarrow> int \<Rightarrow> int \<Rightarrow> int \<Rightarrow> int \<Rightarrow> int \<Rightarrow> int \<Rightarrow> int \<Rightarrow> flag
     \<Rightarrow> ctl \<times> event list \<times> int" where
  "cols_loop g nXSize nBands totalBlocks y nYBlockSize x done c =
     (case col_step g nXSize nBands totalBlocks y nYBlockSize x done c of
        Stop res \<Rightarrow> res
      | Again tile done' x' \<Rightarrow>
          (case cols_loop g nXSize nBands totalBlocks y nYBlockSize x' done'
                  (flag_after tile c) of
             (r, evs, done'') \<Rightarrow> (r, tile @ evs, done'')))"
  by pat_completeness auto
termination
  by (relation "measure (\<lambda>(g, nXSize, nBands, totalBlocks, y, nYBlockSize, x, done, c).
                  nat (nXSize - x))")
     (auto simp: col_step_def int_add_def Let_def
       split: if_splits option.splits prod.splits ctl.splits)

declare cols_loop.simps [simp del]

text \<open>
  One pass of the outer loop
  \<open>for (y = 0; y < nYSize && isConverting.load(); y += blockSizeY)\<close> at \<open>y\<close>: the
  condition, the whole inner loop from \<open>x = 0\<close>, the increment.
\<close>

definition row_step ::
  "gdal \<Rightarrow> int \<Rightarrow> int \<Rightarrow> int \<Rightarrow> int \<Rightarrow> int \<Rightarrow> int \<Rightarrow> flag \<Rightarrow> step" where
  "row_step g nXSize nYSize nBands totalBlocks y done c =
     (if y < nYSize then
        (if \<not> isConverting c then Stop (Go, [Load False], done)
         else
           (case int_sub nYSize y of
              None \<Rightarrow> Stop (Undefined, [Load True], done)
            | Some remaining \<Rightarrow>
                (case cols_loop g nXSize nBands totalBlocks y (min 256 remaining) 0 done
                        (flag_after [Load True] c) of
                   (Go, evs, done') \<Rightarrow>
                     (case int_add y 256 of
                        None \<Rightarrow> Stop (Undefined, Load True # evs, done')
                      | Some y' \<Rightarrow> Again (Load True # evs) done' y')
                 | (r, evs, done') \<Rightarrow> Stop (r, Load True # evs, done'))))
      else Stop (Go, [], done))"

function rows_loop ::
  "gdal \<Rightarrow> int \<Rightarrow> int \<Rightarrow> int \<Rightarrow> int \<Rightarrow> int \<Rightarrow> int \<Rightarrow> flag
     \<Rightarrow> ctl \<times> event list \<times> int" where
  "rows_loop g nXSize nYSize nBands totalBlocks y done c =
     (case row_step g nXSize nYSize nBands totalBlocks y done c of
        Stop res \<Rightarrow> res
      | Again row done' y' \<Rightarrow>
          (case rows_loop g nXSize nYSize nBands totalBlocks y' done' (flag_after row c) of
             (r, evs, done'') \<Rightarrow> (r, row @ evs, done'')))"
  by pat_completeness auto
termination
  by (relation "measure (\<lambda>(g, nXSize, nYSize, nBands, totalBlocks, y, done, c).
                  nat (nYSize - y))")
     (auto simp: row_step_def int_add_def
       split: if_splits option.splits prod.splits ctl.splits)

declare rows_loop.simps [simp del]

text \<open>\<open>(n + blockSize - 1) / blockSize\<close>, evaluated left to right in \<open>int\<close>.\<close>

definition block_count :: "int \<Rightarrow> int \<Rightarrow> int option" where
  "block_count n blockSize =
     (case int_add n blockSize of
        None \<Rightarrow> None
      | Some a \<Rightarrow> (case int_sub a 1 of None \<Rightarrow> None | Some b \<Rightarrow> int_div b blockSize))"

definition processing_started :: "job \<Rightarrow> event" where
  "processing_started j =
     LogMessage (''Starting block processing using '' @ QString_number (numCores j)
       @ '' core(s)...'')"

definition processData :: "job \<Rightarrow> gdal \<Rightarrow> flag \<Rightarrow> ctl \<times> event list" where
  "processData j g c =
     (let nXSize = sint (RasterXSize g);
          nYSize = sint (RasterYSize g);
          nBands = sint (RasterCount g)
      in case block_count nXSize 256 of
           None \<Rightarrow> (Undefined, [])
         | Some nXBlocks \<Rightarrow>
             (case block_count nYSize 256 of
                None \<Rightarrow> (Undefined, [])
              | Some nYBlocks \<Rightarrow>
                  (case int_mul nXBlocks nYBlocks of
                     None \<Rightarrow> (Undefined, [])
                   | Some totalBlocks \<Rightarrow>
                       (let started = [processing_started j]
                        in case rows_loop g nXSize nYSize nBands totalBlocks 0 0
                                  (flag_after started c) of
                             (Go, evs, done) \<Rightarrow>
                               (if \<not> isConverting (flag_after (started @ evs) c) then
                                  (Ret False,
                                   started @ evs @ [Load False, Finished False cancelled_msg])
                                else
                                  (Ret True, started @ evs @ [Load True, ProgressUpdated 1]))
                           | (r, evs, done) \<Rightarrow> (r, started @ evs)))))"

section \<open>The two creation paths\<close>

text \<open>
  \<open>processWithCreateMethod\<close>. With a negative band count \<open>GetRasterBand(1)\<close> is null and
  the call through it is undefined.
\<close>

definition processWithCreateMethod :: "job \<Rightarrow> gdal \<Rightarrow> flag \<Rightarrow> ctl \<times> event list" where
  "processWithCreateMethod j g c =
     (let using = LogMessage ''Using Create method.'';
          nBands = sint (RasterCount g)
      in if nBands = 0 then
           (Ret False, [using, Finished False ''Input dataset has no raster bands.''])
         else if nBands < 0 then (Undefined, [using])
         else
           (let created = Create (outputFile j) (sint (RasterXSize g)) (sint (RasterYSize g)) nBands
            in case Create_error g of
                 Some m \<Rightarrow>
                   (Ret False,
                    [using, created,
                     Finished False (''Failed to create output dataset: '' @ outputFile j
                       @ newline @ ''GDAL Error: '' @ m)])
               | None \<Rightarrow>
                   (let georef = using # created
                          # (if ProjectionRef g then [SetProjection] else [])
                          @ (if GeoTransform g then [SetGeoTransform] else [])
                    in case processData j g (flag_after georef c) of
                         (Ret b, evs) \<Rightarrow> (Ret b, georef @ evs @ [GDALClose Output])
                       | (r, evs) \<Rightarrow> (Undefined, georef @ evs))))"

text \<open>
  \<open>progressCallback\<close>, as the driver calls it: while the flag reads true it forwards the
  driver's fraction and returns \<open>TRUE\<close>, otherwise it returns \<open>FALSE\<close>.
\<close>

primrec run_copy :: "copy_driver \<Rightarrow> flag \<Rightarrow> string option \<times> event list" where
  "run_copy (CopyReturn r) c = (r, [])"
| "run_copy (CopyProgress dfComplete k) c =
     (if isConverting c then
        (case run_copy (k True) (flag_after [Load True, ProgressUpdated dfComplete] c) of
           (r, evs) \<Rightarrow> (r, Load True # ProgressUpdated dfComplete # evs))
      else
        (case run_copy (k False) (flag_after [Load False] c) of
           (r, evs) \<Rightarrow> (r, Load False # evs)))"

definition processWithCreateCopyMethod :: "job \<Rightarrow> gdal \<Rightarrow> flag \<Rightarrow> ctl \<times> event list" where
  "processWithCreateCopyMethod j g c =
     (let copying = [LogMessage ''Using CreateCopy method.'', CreateCopy (outputFile j)]
      in case run_copy (CreateCopy_driver g) (flag_after copying c) of
           (Some m, evs) \<Rightarrow>
             (Ret False,
              copying @ evs
                @ [Finished False (''Failed to create output dataset using CreateCopy: ''
                     @ outputFile j @ newline @ ''GDAL Error: '' @ m)])
         | (None, evs) \<Rightarrow> (Ret True, copying @ evs @ [GDALClose Output]))"

section \<open>Worker::process\<close>

fun set_options :: "(string \<times> string) list \<Rightarrow> event list" where
  "set_options [] = []"
| "set_options ((k, v) # opts) =
     CSLSetNameValue k v # LogMessage (''Setting GDAL option: '' @ k @ '' = '' @ v)
       # set_options opts"

text \<open>
  What \<open>process\<close> does after a creation path has returned: on \<open>true\<close> it closes the
  input and reports success, on \<open>false\<close> it closes the input and returns (the path has
  emitted \<open>finished\<close> itself).
\<close>

definition after_path :: "job \<Rightarrow> ctl \<times> event list \<Rightarrow> ctl \<times> event list" where
  "after_path j res =
     (case res of
        (Ret True, evs) \<Rightarrow>
          (Go, evs @ [GDALClose Input, CSLDestroy,
                 LogMessage ''Conversion process completed successfully.'',
                 Finished True (''Conversion completed successfully: '' @ outputFile j)])
      | (Ret False, evs) \<Rightarrow> (Go, evs @ [GDALClose Input, CSLDestroy])
      | (r, evs) \<Rightarrow> (Undefined, evs))"

text \<open>The events of \<open>process\<close> up to the choice of the processing mode.\<close>

definition ready :: "job \<Rightarrow> event list" where
  "ready j =
     [LogMessage ''Starting GDAL conversion...'', GDALOpenEx (inputFile j),
      LogMessage ''Input file opened successfully.'', GetDriverByName (outputDriverName j),
      LogMessage (''Output driver found: '' @ outputDriverName j)]
     @ set_options (gdalOptions j)"

definition process :: "job \<Rightarrow> gdal \<Rightarrow> flag \<Rightarrow> ctl \<times> event list" where
  "process j g c =
     (case OpenEx_error g of
        Some m \<Rightarrow>
          (Go, [LogMessage ''Starting GDAL conversion...'', GDALOpenEx (inputFile j),
                Finished False (''Failed to open input file: '' @ inputFile j
                  @ newline @ ''GDAL Error: '' @ m)])
      | None \<Rightarrow>
          (if \<not> driver_available g then
             (Go, [LogMessage ''Starting GDAL conversion...'', GDALOpenEx (inputFile j),
                   LogMessage ''Input file opened successfully.'',
                   GetDriverByName (outputDriverName j), GDALClose Input,
                   Finished False (''Output driver not available: '' @ outputDriverName j)])
           else
             (case processingMode j of
                CPU \<Rightarrow>
                  (let cpu = ready j @ [LogMessage ''Processing mode: CPU'']
                   in if DCAP_CREATE g then
                        (case after_path j (processWithCreateMethod j g (flag_after cpu c)) of
                           (r, evs) \<Rightarrow> (r, cpu @ evs))
                      else if DCAP_CREATECOPY g then
                        (case after_path j (processWithCreateCopyMethod j g (flag_after cpu c)) of
                           (r, evs) \<Rightarrow> (r, cpu @ evs))
                      else
                        (Go, cpu
                           @ [GDALClose Input, CSLDestroy,
                              Finished False
                                ''Output driver does not support Create or CreateCopy methods.'']))
              | GPU \<Rightarrow>
                  (Go, ready j
                     @ [LogMessage ''Processing mode: GPU'', GDALClose Input, CSLDestroy,
                        LogMessage ''GPU processing is not yet implemented.'',
                        Finished False ''GPU processing is not yet implemented.''])
              | OtherMode \<Rightarrow>
                  (Go, ready j
                     @ [GDALClose Input, CSLDestroy,
                        Finished False ''Unknown processing mode selected.'']))))"

section \<open>Observations on a run\<close>

text \<open>The three signals of the worker, and the terminal one among them.\<close>

fun is_signal :: "event \<Rightarrow> bool" where
  "is_signal (LogMessage m) = True"
| "is_signal (ProgressUpdated p) = True"
| "is_signal (Finished b m) = True"
| "is_signal e = False"

fun is_finished :: "event \<Rightarrow> bool" where
  "is_finished (Finished b m) = True"
| "is_finished e = False"

definition signals :: "event list \<Rightarrow> event list" where
  "signals evs = filter is_signal evs"

definition no_finished :: "event list \<Rightarrow> bool" where
  "no_finished evs = list_all (\<lambda>e. \<not> is_finished e) evs"

text \<open>The last event is a \<open>finished\<close> signal and no earlier one is.\<close>

definition finished_last :: "event list \<Rightarrow> bool" where
  "finished_last evs =
     (case rev evs of [] \<Rightarrow> False | e # before \<Rightarrow> is_finished e \<and> no_finished before)"

text \<open>
  The discipline of the worker's functions: one that returns \<open>false\<close> has emitted
  \<open>finished\<close> as its last event, and nothing else emits it.
\<close>

definition reported :: "ctl \<Rightarrow> event list \<Rightarrow> bool" where
  "reported r evs = (if r = Ret False then finished_last evs else no_finished evs)"

text \<open>Calls that create, write or close the destination dataset, and the driver lookup.\<close>

fun touches_destination :: "event \<Rightarrow> bool" where
  "touches_destination (Create path w h n) = True"
| "touches_destination (CreateCopy path) = True"
| "touches_destination SetProjection = True"
| "touches_destination SetGeoTransform = True"
| "touches_destination (RasterIO GF_Write x y w h b r) = True"
| "touches_destination (GDALClose Output) = True"
| "touches_destination e = False"

fun is_Create :: "event \<Rightarrow> bool" where
  "is_Create (Create path w h n) = True"
| "is_Create e = False"

fun is_CreateCopy :: "event \<Rightarrow> bool" where
  "is_CreateCopy (CreateCopy path) = True"
| "is_CreateCopy e = False"

fun is_GetDriverByName :: "event \<Rightarrow> bool" where
  "is_GetDriverByName (GetDriverByName name) = True"
| "is_GetDriverByName e = False"

text \<open>The events that the tile loop can produce.\<close>

fun tile_event :: "event \<Rightarrow> bool" where
  "tile_event (Load b) = True"
| "tile_event (RasterIO rw x y w h b r) = True"
| "tile_event (ProgressUpdated p) = True"
| "tile_event (Finished False m) = True"
| "tile_event e = False"

text \<open>The events that the driver's copy loop can produce through the callback.\<close>

fun copy_event :: "event \<Rightarrow> bool" where
  "copy_event (Load b) = True"
| "copy_event (ProgressUpdated p) = True"
| "copy_event e = False"

section \<open>Tiles and progress seen in a run\<close>

text \<open>The number of 256-blocks that cover \<open>n\<close> pixels, as a mathematical integer.\<close>

definition blocks :: "int \<Rightarrow> int" where
  "blocks n = (n + 255) div 256"

text \<open>A tile is its origin \<open>x\<close>, \<open>y\<close> and its size \<open>width\<close>, \<open>height\<close>.\<close>

type_synonym tile = "int \<times> int \<times> int \<times> int"

text \<open>The tiles the loop visits: each tile is read once for band 1.\<close>

fun tile_of :: "event \<Rightarrow> tile list" where
  "tile_of (RasterIO GF_Read x y w h b r) = (if b = 1 then [(x, y, w, h)] else [])"
| "tile_of e = []"

definition tiles_read :: "event list \<Rightarrow> tile list" where
  "tiles_read evs = concat (map tile_of evs)"

text \<open>
  The tiles committed to the destination: a tile is complete when the write of its last
  band, band \<open>nBands\<close>, has succeeded.
\<close>

fun written_of :: "int \<Rightarrow> event \<Rightarrow> tile list" where
  "written_of nBands (RasterIO GF_Write x y w h b CE_None) =
     (if b = nBands then [(x, y, w, h)] else [])"
| "written_of nBands e = []"

definition tiles_written :: "int \<Rightarrow> event list \<Rightarrow> tile list" where
  "tiles_written nBands evs = concat (map (written_of nBands) evs)"

fun is_write :: "event \<Rightarrow> bool" where
  "is_write (RasterIO GF_Write x y w h b r) = True"
| "is_write e = False"

fun is_RasterIO :: "event \<Rightarrow> bool" where
  "is_RasterIO (RasterIO rw x y w h b r) = True"
| "is_RasterIO e = False"

text \<open>The fractions of the \<open>progressUpdated\<close> signals, in order.\<close>

fun fraction_of :: "event \<Rightarrow> rat list" where
  "fraction_of (ProgressUpdated p) = [p]"
| "fraction_of e = []"

definition progress_of :: "event list \<Rightarrow> rat list" where
  "progress_of evs = concat (map fraction_of evs)"

text \<open>
  The 256 x 256 tiling of a \<open>W\<close> x \<open>H\<close> raster in row-major order: rows top to bottom,
  the tiles of a row left to right, each clipped to the raster.
\<close>

definition tile_row :: "int \<Rightarrow> int \<Rightarrow> int \<Rightarrow> tile list" where
  "tile_row W y h = map (\<lambda>i. (256 * i, y, min 256 (W - 256 * i), h)) [0..blocks W - 1]"

definition tile_grid :: "int \<Rightarrow> int \<Rightarrow> tile list" where
  "tile_grid W H =
     concat (map (\<lambda>j. tile_row W (256 * j) (min 256 (H - 256 * j))) [0..blocks H - 1])"

fun area :: "tile \<Rightarrow> int" where
  "area (x, y, w, h) = w * h"

text \<open>Row-major order: a later tile lies in a lower row, or in the same row further right.\<close>

fun row_major :: "tile \<Rightarrow> tile \<Rightarrow> bool" where
  "row_major (x, y, w, h) (x', y', w', h') \<longleftrightarrow> y < y' \<or> (y = y' \<and> x < x')"

text \<open>The pixel \<open>(px, py)\<close> lies in the tile.\<close>

fun covers :: "int \<Rightarrow> int \<Rightarrow> tile \<Rightarrow> bool" where
  "covers px py (x, y, w, h) \<longleftrightarrow> x \<le> px \<and> px < x + w \<and> y \<le> py \<and> py < y + h"

text \<open>The fractions \<open>(d + 1) / t, ..., d' / t\<close>.\<close>

abbreviation (input) fractions :: "int \<Rightarrow> int \<Rightarrow> int \<Rightarrow> rat list" where
  "fractions t d d' \<equiv> map (\<lambda>k. of_int k / of_int t) [d + 1..d']"


section \<open>Cancellation seen in a run\<close>


text \<open>The events after the first read of the flag that returned false.\<close>

fun after_cancel :: "event list \<Rightarrow> event list" where
  "after_cancel [] = []"
| "after_cancel (e # evs) = (if e = Load False then evs else after_cancel evs)"

text \<open>
  What the tile loop still does once it has seen the flag set: it reads the flag again
  in the loop conditions and after the loop, and it reports the cancellation.
\<close>

fun quiet :: "event \<Rightarrow> bool" where
  "quiet (Load b) = (\<not> b)"
| "quiet (Finished b m) = (\<not> b \<and> m = cancelled_msg)"
| "quiet e = False"

text \<open>
  What holds of a piece of the tile loop that has read the flag as set: from then on it
  is quiet, the flag is set when it ends, and it ends by leaving the loop or by
  reporting the cancellation.
\<close>

definition cancelled :: "flag \<Rightarrow> ctl \<Rightarrow> event list \<Rightarrow> bool" where
  "cancelled c r evs \<longleftrightarrow>
     list_all quiet (after_cancel evs) \<and> \<not> isConverting (flag_after evs c)
     \<and> (r = Go \<or> r = Ret False \<and> last evs = Finished False cancelled_msg)"

text \<open>No \<open>RasterIO\<close> call comes before the first read of the flag that returned true.\<close>

fun io_guarded :: "event list \<Rightarrow> bool" where
  "io_guarded [] = True"
| "io_guarded (e # evs) = (e = Load True \<or> \<not> is_RasterIO e \<and> io_guarded evs)"

text \<open>
  Every read of the flag in the trace returns what the flag holds at that moment, for a
  run that starts with the flag \<open>c\<close>.
\<close>

fun consistent :: "flag \<Rightarrow> event list \<Rightarrow> bool" where
  "consistent c [] = True"
| "consistent c (e # evs) =
     ((e = Load (isConverting c) \<or> e \<noteq> Load True \<and> e \<noteq> Load False)
      \<and> consistent (flag_after [e] c) evs)"

section \<open>Sizes within the range of int\<close>

text \<open>
  The sources on which the block arithmetic of \<open>processData\<close> and the band loops stay
  within \<open>int\<close>: \<open>nXSize + blockSizeX\<close> and \<open>nYSize + blockSizeY\<close> do not overflow,
  \<open>nXBlocks * nYBlocks\<close> does not, and \<open>++bandIndex\<close> does not.
\<close>

definition in_range :: "gdal \<Rightarrow> bool" where
  "in_range g \<longleftrightarrow>
     0 \<le> sint (RasterCount g) \<and> sint (RasterCount g) < INT_MAX
     \<and> 0 \<le> sint (RasterXSize g) \<and> sint (RasterXSize g) \<le> INT_MAX - 256
     \<and> 0 \<le> sint (RasterYSize g) \<and> sint (RasterYSize g) \<le> INT_MAX - 256
     \<and> blocks (sint (RasterXSize g)) * blocks (sint (RasterYSize g)) \<le> INT_MAX"

section \<open>Example jobs\<close>




text \<open>A 600 x 400 source of three bands, converted to GeoTIFF on four cores.\<close>

definition demo_job :: job where
  "demo_job =
     \<lparr>inputFile = ''in.tif'', outputFile = ''out.tif'', inputDriverName = ''GTiff'',
      outputDriverName = ''GTiff'', gdalOptions = [(''COMPRESS'', ''LZW'')],
      processingMode = CPU, numCores = 4\<rparr>"

definition demo_gdal :: gdal where
  "demo_gdal =
     \<lparr>OpenEx_error = None, driver_available = True, DCAP_CREATE = True,
      DCAP_CREATECOPY = True, RasterCount = 3, RasterXSize = 600, RasterYSize = 400,
      Create_error = None, ProjectionRef = True, GeoTransform = True,
      Read_error = (\<lambda>x y b. None), Write_error = (\<lambda>x y b. None),
      CreateCopy_driver = CopyReturn None\<rparr>"

section \<open>Which events each piece produces\<close>

lemma processing_started_observed [simp]:
  "\<not> is_finished (processing_started j)"
  "is_signal (processing_started j)"
  "\<not> touches_destination (processing_started j)"
  "\<not> is_Create (processing_started j)"
  "\<not> is_CreateCopy (processing_started j)"
  "\<not> is_write (processing_started j)"
  "\<not> is_RasterIO (processing_started j)"
  "tile_of (processing_started j) = []"
  "written_of n (processing_started j) = []"
  "fraction_of (processing_started j) = []"
  "processing_started j \<noteq> Load b"
  by (simp_all add: processing_started_def)

lemma list_all_weaken:
  "list_all P evs \<Longrightarrow> (\<And>e. P e \<Longrightarrow> Q e) \<Longrightarrow> list_all Q evs"
  by (simp add: list_all_iff)

lemma tile_event_kinds:
  "tile_event e \<Longrightarrow> \<not> is_Create e \<and> \<not> is_CreateCopy e \<and> \<not> is_GetDriverByName e"
  by (cases e rule: tile_event.cases) auto

lemma copy_event_kinds:
  "copy_event e \<Longrightarrow> \<not> is_Create e \<and> \<not> touches_destination e"
  by (cases e rule: copy_event.cases) auto

lemma read_bands_events: "read_bands g x y w h n b = (r, evs) \<Longrightarrow> list_all tile_event evs"
proof (induction g x y w h n b arbitrary: r evs rule: read_bands.induct)
  case (1 g x y w h n b)
  from "1.prems" "1.IH" show ?case
    by (subst (asm) read_bands.simps) (auto split: option.splits prod.splits if_splits)
qed

lemma write_bands_events: "write_bands g x y w h n b = (r, evs) \<Longrightarrow> list_all tile_event evs"
proof (induction g x y w h n b arbitrary: r evs rule: write_bands.induct)
  case (1 g x y w h n b)
  from "1.prems" "1.IH" show ?case
    by (subst (asm) write_bands.simps) (auto split: option.splits prod.splits if_splits)
qed

lemma tile_body_events: "tile_body g x y w h n c = (r, evs) \<Longrightarrow> list_all tile_event evs"
  by (auto simp: tile_body_def dest: read_bands_events write_bands_events
      split: prod.splits ctl.splits bool.splits if_splits)

lemma col_step_events:
  "col_step g W n t y h x d c = Stop (r, evs, d') \<Longrightarrow> list_all tile_event evs"
  "col_step g W n t y h x d c = Again tile d1 x1 \<Longrightarrow> list_all tile_event tile"
  by (auto simp: col_step_def Let_def dest: tile_body_events
      split: if_splits option.splits prod.splits ctl.splits bool.splits)

lemma cols_loop_events: "cols_loop g W n t y h x d c = (r, evs, d') \<Longrightarrow> list_all tile_event evs"
proof (induction g W n t y h x d c arbitrary: r evs d' rule: cols_loop.induct)
  case (1 g W n t y h x d c)
  show ?case
  proof (cases "col_step g W n t y h x d c")
    case (Stop res)
    with "1.prems" show ?thesis
      by (simp add: cols_loop.simps col_step_events)
  next
    case (Again tile d1 x1)
    with "1.prems" "1.IH"[OF Again] col_step_events(2)[OF Again] show ?thesis
      by (auto simp: cols_loop.simps split: prod.splits)
  qed
qed

lemma row_step_events:
  "row_step g W H n t y d c = Stop (r, evs, d') \<Longrightarrow> list_all tile_event evs"
  "row_step g W H n t y d c = Again row d1 y1 \<Longrightarrow> list_all tile_event row"
  by (auto simp: row_step_def dest: cols_loop_events
      split: if_splits option.splits prod.splits ctl.splits bool.splits)

lemma rows_loop_events: "rows_loop g W H n t y d c = (r, evs, d') \<Longrightarrow> list_all tile_event evs"
proof (induction g W H n t y d c arbitrary: r evs d' rule: rows_loop.induct)
  case (1 g W H n t y d c)
  show ?case
  proof (cases "row_step g W H n t y d c")
    case (Stop res)
    with "1.prems" show ?thesis
      by (simp add: rows_loop.simps row_step_events)
  next
    case (Again row d1 y1)
    with "1.prems" "1.IH"[OF Again] row_step_events(2)[OF Again] show ?thesis
      by (auto simp: rows_loop.simps split: prod.splits)
  qed
qed

lemma processData_events:
  assumes "processData j g c = (r, evs)"
  shows "list_all (\<lambda>e. tile_event e \<or> (\<exists>m. e = LogMessage m)) evs"
proof -
  have "list_all (\<lambda>e. tile_event e \<or> (\<exists>m. e = LogMessage m)) evs'"
    if "rows_loop g W H n t 0 0 c' = (r', evs', d')" for W H n t c' r' evs' d'
    by (rule list_all_weaken[OF rows_loop_events[OF that]]) simp
  with assms show ?thesis
    by (auto simp: processData_def Let_def processing_started_def
        split: option.splits prod.splits ctl.splits bool.splits if_splits)
qed

lemma set_options_events:
  "list_all (\<lambda>e. (\<exists>k v. e = CSLSetNameValue k v) \<or> (\<exists>m. e = LogMessage m)) (set_options opts)"
  by (induction opts rule: set_options.induct) auto

lemma run_copy_events:
  "run_copy d c = (r, evs) \<Longrightarrow> list_all copy_event evs"
proof (induction d arbitrary: c r evs)
  case (CopyReturn res)
  then show ?case by simp
next
  case (CopyProgress p k)
  show ?case
  proof (cases "isConverting c")
    case True
    obtain r' evs' where
      rec: "run_copy (k True) (flag_after [Load True, ProgressUpdated p] c) = (r', evs')"
      by (cases "run_copy (k True) (flag_after [Load True, ProgressUpdated p] c)") auto
    have "list_all copy_event evs'"
      by (rule CopyProgress.IH[OF _ rec]) simp
    with CopyProgress.prems True rec show ?thesis by auto
  next
    case False
    obtain r' evs' where rec: "run_copy (k False) (flag_after [Load False] c) = (r', evs')"
      by (cases "run_copy (k False) (flag_after [Load False] c)") auto
    have "list_all copy_event evs'"
      by (rule CopyProgress.IH[OF _ rec]) simp
    with CopyProgress.prems False rec show ?thesis by auto
  qed
qed

lemma not_touching_ready: "list_all (\<lambda>e. \<not> touches_destination e) (ready j)"
  using set_options_events[of "gdalOptions j"]
  by (auto simp: ready_def list_all_iff)

lemma no_Create_ready: "list_all (\<lambda>e. \<not> is_Create e \<and> \<not> is_CreateCopy e) (ready j)"
  using set_options_events[of "gdalOptions j"]
  by (auto simp: ready_def list_all_iff)

lemma processWithCreateMethod_calls:
  assumes "processWithCreateMethod j g c = (r, evs)"
  shows "LogMessage ''Using Create method.'' \<in> set evs" and "list_all (\<lambda>e. \<not> is_CreateCopy e) evs"
proof -
  have pd: "list_all (\<lambda>e. \<not> is_CreateCopy e) evs'" if "processData j g c' = (r', evs')" for c' r' evs'
    by (rule list_all_weaken[OF processData_events[OF that]]) (auto dest: tile_event_kinds)
  from assms show "LogMessage ''Using Create method.'' \<in> set evs"
    by (auto simp: processWithCreateMethod_def Let_def
        split: if_splits option.splits prod.splits ctl.splits)
  from assms pd show "list_all (\<lambda>e. \<not> is_CreateCopy e) evs"
    by (auto simp: processWithCreateMethod_def Let_def
        split: if_splits option.splits prod.splits ctl.splits)
qed

lemma processWithCreateCopyMethod_calls:
  assumes "processWithCreateCopyMethod j g c = (r, evs)"
  shows "CreateCopy (outputFile j) \<in> set evs" and "list_all (\<lambda>e. \<not> is_Create e) evs"
proof -
  have rc: "list_all (\<lambda>e. \<not> is_Create e) evs'" if "run_copy d c' = (r', evs')" for d c' r' evs'
    by (rule list_all_weaken[OF run_copy_events[OF that]]) (simp add: copy_event_kinds)
  from assms show "CreateCopy (outputFile j) \<in> set evs"
    by (auto simp: processWithCreateCopyMethod_def Let_def split: option.splits prod.splits)
  from assms rc show "list_all (\<lambda>e. \<not> is_Create e) evs"
    by (auto simp: processWithCreateCopyMethod_def Let_def split: option.splits prod.splits)
qed

lemma after_path_events:
  "after_path j (r, evs) = (r', evs') \<Longrightarrow>
     set evs \<subseteq> set evs' \<and>
     (list_all (\<lambda>e. \<not> is_Create e) evs \<longrightarrow> list_all (\<lambda>e. \<not> is_Create e) evs') \<and>
     (list_all (\<lambda>e. \<not> is_CreateCopy e) evs \<longrightarrow> list_all (\<lambda>e. \<not> is_CreateCopy e) evs')"
  by (auto simp: after_path_def split: ctl.splits bool.splits)

section \<open>Strategy selection\<close>

text \<open>
  C3: once the source is open and the output driver is found, a CPU job takes exactly one
  of three ways. If the driver advertises \<open>DCAP_CREATE\<close> the Create path runs and
  \<open>CreateCopy\<close> is never called, whether or not \<open>DCAP_CREATECOPY\<close> is advertised as
  well; otherwise, if it advertises \<open>DCAP_CREATECOPY\<close>, \<open>CreateCopy\<close> is called on the
  output file and \<open>Create\<close> never is; otherwise the job ends with the failure "Output
  driver does not support Create or CreateCopy methods.".
\<close>

theorem strategy_selection:
  assumes "OpenEx_error g = None" and "driver_available g" and "processingMode j = CPU"
  shows "(DCAP_CREATE g \<longrightarrow>
            LogMessage ''Using Create method.'' \<in> set (snd (process j g c))
            \<and> list_all (\<lambda>e. \<not> is_CreateCopy e) (snd (process j g c)))
       \<and> (\<not> DCAP_CREATE g \<and> DCAP_CREATECOPY g \<longrightarrow>
            CreateCopy (outputFile j) \<in> set (snd (process j g c))
            \<and> list_all (\<lambda>e. \<not> is_Create e) (snd (process j g c)))
       \<and> (\<not> DCAP_CREATE g \<and> \<not> DCAP_CREATECOPY g \<longrightarrow>
            process j g c =
              (Go, ready j
                 @ [LogMessage ''Processing mode: CPU'', GDALClose Input, CSLDestroy,
                    Finished False
                      ''Output driver does not support Create or CreateCopy methods.'']))"
proof (intro conjI impI)
  let ?cpu = "ready j @ [LogMessage ''Processing mode: CPU'']"
  {
    assume create: "DCAP_CREATE g"
    obtain r evs where m: "processWithCreateMethod j g (flag_after ?cpu c) = (r, evs)"
      by (cases "processWithCreateMethod j g (flag_after ?cpu c)") auto
    obtain r' evs' where a: "after_path j (r, evs) = (r', evs')"
      by (cases "after_path j (r, evs)") auto
    from assms create m a have p: "snd (process j g c) = ?cpu @ evs'"
      by (simp add: process_def Let_def)
    from processWithCreateMethod_calls[OF m] after_path_events[OF a] no_Create_ready[of j]
    show "LogMessage ''Using Create method.'' \<in> set (snd (process j g c))"
      and "list_all (\<lambda>e. \<not> is_CreateCopy e) (snd (process j g c))"
      unfolding p by (auto simp: list_all_iff)
  }
  {
    assume copy: "\<not> DCAP_CREATE g \<and> DCAP_CREATECOPY g"
    obtain r evs where m: "processWithCreateCopyMethod j g (flag_after ?cpu c) = (r, evs)"
      by (cases "processWithCreateCopyMethod j g (flag_after ?cpu c)") auto
    obtain r' evs' where a: "after_path j (r, evs) = (r', evs')"
      by (cases "after_path j (r, evs)") auto
    from assms copy m a have p: "snd (process j g c) = ?cpu @ evs'"
      by (simp add: process_def Let_def)
    from processWithCreateCopyMethod_calls[OF m] after_path_events[OF a] no_Create_ready[of j]
    show "CreateCopy (outputFile j) \<in> set (snd (process j g c))"
      and "list_all (\<lambda>e. \<not> is_Create e) (snd (process j g c))"
      unfolding p by (auto simp: list_all_iff)
  }
  {
    assume "\<not> DCAP_CREATE g \<and> \<not> DCAP_CREATECOPY g"
    with assms show "process j g c =
              (Go, ready j
                 @ [LogMessage ''Processing mode: CPU'', GDALClose Input, CSLDestroy,
                    Finished False
                      ''Output driver does not support Create or CreateCopy methods.''])"
      by (simp add: process_def Let_def)
  }
qed

theorem strategy_selection_witness:
  "(DCAP_CREATE demo_gdal \<and> DCAP_CREATECOPY demo_gdal
      \<and> LogMessage ''Using Create method.'' \<in> set (snd (process demo_job demo_gdal None))
      \<and> list_all (\<lambda>e. \<not> is_CreateCopy e) (snd (process demo_job demo_gdal None)))
   \<and> (\<not> DCAP_CREATE (demo_gdal\<lparr>DCAP_CREATE := False\<rparr>)
      \<and> CreateCopy ''out.tif''
            \<in> set (snd (process demo_job (demo_gdal\<lparr>DCAP_CREATE := False\<rparr>) None)))
   \<and> fst (process demo_job (demo_gdal\<lparr>DCAP_CREATE := False, DCAP_CREATECOPY := False\<rparr>) None) = Go"
  using strategy_selection[of demo_gdal demo_job None]
    strategy_selection[of "demo_gdal\<lparr>DCAP_CREATE := False\<rparr>" demo_job None]
    strategy_selection[of "demo_gdal\<lparr>DCAP_CREATE := False, DCAP_CREATECOPY := False\<rparr>" demo_job None]
  by (simp add: demo_gdal_def demo_job_def)

section \<open>Failure to open the source\<close>

text \<open>
  C8: when \<open>GDALOpenEx\<close> returns null, the job logs its start, emits
  \<open>finished(false, ...)\<close> with the text of \<open>CPLGetLastErrorMsg\<close> and returns; the
  driver manager is not asked for the output driver and no call touches the destination.
\<close>

theorem open_failure_stops_job:
  assumes "OpenEx_error g = Some m"
  shows "process j g c =
           (Go, [LogMessage ''Starting GDAL conversion...'', GDALOpenEx (inputFile j),
                 Finished False (''Failed to open input file: '' @ inputFile j
                   @ newline @ ''GDAL Error: '' @ m)])
       \<and> list_all (\<lambda>e. \<not> is_GetDriverByName e \<and> \<not> touches_destination e)
            (snd (process j g c))"
  using assms by (simp add: process_def)

theorem open_failure_stops_job_witness:
  "OpenEx_error (demo_gdal\<lparr>OpenEx_error := Some ''No such file or directory''\<rparr>)
     = Some ''No such file or directory''
   \<and> process demo_job (demo_gdal\<lparr>OpenEx_error := Some ''No such file or directory''\<rparr>) None =
       (Go, [LogMessage ''Starting GDAL conversion...'', GDALOpenEx ''in.tif'',
             Finished False (''Failed to open input file: in.tif'' @ newline
               @ ''GDAL Error: No such file or directory'')])"
  using open_failure_stops_job[of "demo_gdal\<lparr>OpenEx_error := Some ''No such file or directory''\<rparr>"
      "''No such file or directory''" demo_job None]
  by (simp add: demo_gdal_def demo_job_def)

section \<open>A source without bands\<close>

text \<open>
  C9: on the Create path a source with zero raster bands makes
  \<open>processWithCreateMethod\<close> emit \<open>finished(false, "Input dataset has no raster bands.")\<close>
  and return before \<open>Create\<close> is called, so no call of the job touches the destination.
\<close>

theorem no_bands_fails_before_create:
  assumes "OpenEx_error g = None" and "driver_available g" and "processingMode j = CPU"
    and "DCAP_CREATE g" and "RasterCount g = 0"
  shows "processWithCreateMethod j g c' =
           (Ret False,
            [LogMessage ''Using Create method.'',
             Finished False ''Input dataset has no raster bands.''])
       \<and> process j g c =
           (Go, ready j
              @ [LogMessage ''Processing mode: CPU'', LogMessage ''Using Create method.'',
                 Finished False ''Input dataset has no raster bands.'',
                 GDALClose Input, CSLDestroy])
       \<and> list_all (\<lambda>e. \<not> touches_destination e) (snd (process j g c))"
proof -
  have m: "processWithCreateMethod j g c' =
      (Ret False,
       [LogMessage ''Using Create method.'', Finished False ''Input dataset has no raster bands.''])"
    for c'
    using assms by (simp add: processWithCreateMethod_def)
  have p: "process j g c =
      (Go, ready j
         @ [LogMessage ''Processing mode: CPU'', LogMessage ''Using Create method.'',
            Finished False ''Input dataset has no raster bands.'', GDALClose Input, CSLDestroy])"
    using assms by (simp add: process_def m after_path_def)
  show ?thesis
    using not_touching_ready[of j] by (simp add: m p)
qed

theorem no_bands_fails_before_create_witness:
  "RasterCount (demo_gdal\<lparr>RasterCount := 0\<rparr>) = 0
   \<and> list_all (\<lambda>e. \<not> touches_destination e)
        (snd (process demo_job (demo_gdal\<lparr>RasterCount := 0\<rparr>) None))
   \<and> last (signals (snd (process demo_job (demo_gdal\<lparr>RasterCount := 0\<rparr>) None)))
       = Finished False ''Input dataset has no raster bands.''"
  using no_bands_fails_before_create[of "demo_gdal\<lparr>RasterCount := 0\<rparr>" demo_job None None]
  by (simp add: demo_gdal_def demo_job_def signals_def ready_def)


section \<open>Exactly one terminal signal\<close>

lemma no_finished_simps [simp]:
  "no_finished []"
  "no_finished (e # evs) \<longleftrightarrow> \<not> is_finished e \<and> no_finished evs"
  "no_finished (evs @ evs') \<longleftrightarrow> no_finished evs \<and> no_finished evs'"
  "no_finished (rev evs) \<longleftrightarrow> no_finished evs"
  by (auto simp: no_finished_def)

lemma finished_last_simps [simp]:
  "\<not> finished_last []"
  "finished_last [e] \<longleftrightarrow> is_finished e"
  "finished_last (evs @ [e]) \<longleftrightarrow> is_finished e \<and> no_finished evs"
  by (auto simp: finished_last_def)

lemma finished_last_Cons [simp]:
  "finished_last evs \<Longrightarrow> \<not> is_finished e \<Longrightarrow> finished_last (e # evs)"
  by (cases evs rule: rev_cases) (auto simp: finished_last_def)

lemma finished_last_append [simp]:
  "finished_last evs' \<Longrightarrow> no_finished evs \<Longrightarrow> finished_last (evs @ evs')"
  by (cases evs' rule: rev_cases) (auto simp: finished_last_def)

lemma signals_simps [simp]:
  "signals [] = []"
  "signals (e # evs) = (if is_signal e then e # signals evs else signals evs)"
  "signals (evs @ evs') = signals evs @ signals evs'"
  by (simp_all add: signals_def)

lemma no_finished_signals [simp]: "no_finished (signals evs) \<longleftrightarrow> no_finished evs"
  by (induction evs) (auto elim: is_finished.elims)

lemma finished_last_signals: "finished_last evs \<Longrightarrow> finished_last (signals evs)"
  by (cases evs rule: rev_cases) (auto elim: is_finished.elims)

lemma read_bands_reported: "read_bands g x y w h n b = (r, evs) \<Longrightarrow> reported r evs"
proof (induction g x y w h n b arbitrary: r evs rule: read_bands.induct)
  case (1 g x y w h n b)
  from "1.prems" "1.IH" show ?case
    by (subst (asm) read_bands.simps)
       (auto simp: reported_def split: option.splits prod.splits if_splits)
qed

lemma write_bands_reported: "write_bands g x y w h n b = (r, evs) \<Longrightarrow> reported r evs"
proof (induction g x y w h n b arbitrary: r evs rule: write_bands.induct)
  case (1 g x y w h n b)
  from "1.prems" "1.IH" show ?case
    by (subst (asm) write_bands.simps)
       (auto simp: reported_def split: option.splits prod.splits if_splits)
qed

lemma tile_body_reported: "tile_body g x y w h n c = (r, evs) \<Longrightarrow> reported r evs"
  by (auto simp: tile_body_def reported_def
      dest!: read_bands_reported write_bands_reported
      split: prod.splits ctl.splits bool.splits if_splits)

lemma col_step_reported:
  "col_step g W n t y h x d c = Stop (r, evs, d') \<Longrightarrow> reported r evs"
  "col_step g W n t y h x d c = Again tile d1 x1 \<Longrightarrow> no_finished tile"
  by (auto simp: col_step_def reported_def Let_def
      dest!: tile_body_reported
      split: if_splits option.splits prod.splits ctl.splits bool.splits)

lemma reported_append: "no_finished evs \<Longrightarrow> reported r evs' \<Longrightarrow> reported r (evs @ evs')"
  by (auto simp: reported_def)

lemma cols_loop_reported:
  "cols_loop g W n t y h x d c = (r, evs, d') \<Longrightarrow> reported r evs"
proof (induction g W n t y h x d c arbitrary: r evs d' rule: cols_loop.induct)
  case (1 g W n t y h x d c)
  show ?case
  proof (cases "col_step g W n t y h x d c")
    case (Stop res)
    with "1.prems" show ?thesis
      by (simp add: cols_loop.simps col_step_reported)
  next
    case (Again tile d1 x1)
    with "1.prems" "1.IH"[OF Again] col_step_reported(2)[OF Again] show ?thesis
      by (auto simp: cols_loop.simps reported_append split: prod.splits)
  qed
qed

lemma row_step_reported:
  "row_step g W H n t y d c = Stop (r, evs, d') \<Longrightarrow> reported r evs"
  "row_step g W H n t y d c = Again row d1 y1 \<Longrightarrow> no_finished row"
  by (auto simp: row_step_def reported_def
      dest!: cols_loop_reported
      split: if_splits option.splits prod.splits ctl.splits bool.splits)

lemma rows_loop_reported:
  "rows_loop g W H n t y d c = (r, evs, d') \<Longrightarrow> reported r evs"
proof (induction g W H n t y d c arbitrary: r evs d' rule: rows_loop.induct)
  case (1 g W H n t y d c)
  show ?case
  proof (cases "row_step g W H n t y d c")
    case (Stop res)
    with "1.prems" show ?thesis
      by (simp add: rows_loop.simps row_step_reported)
  next
    case (Again row d1 y1)
    with "1.prems" "1.IH"[OF Again] row_step_reported(2)[OF Again] show ?thesis
      by (auto simp: rows_loop.simps reported_append split: prod.splits)
  qed
qed

lemma processData_reported: "processData j g c = (r, evs) \<Longrightarrow> reported r evs"
  by (auto simp: processData_def Let_def reported_def
      dest!: rows_loop_reported
      split: option.splits prod.splits ctl.splits bool.splits if_splits)

lemma terminal_between:
  "finished_last evs \<Longrightarrow> no_finished pre \<Longrightarrow> signals post = [] \<Longrightarrow>
     finished_last (signals (pre @ evs @ post))"
  by (simp add: finished_last_signals)

lemma processWithCreateMethod_reported:
  assumes "processWithCreateMethod j g c = (r, evs)" and "r \<noteq> Undefined"
  shows "(r = Ret False \<and> finished_last (signals evs)) \<or> (r = Ret True \<and> no_finished evs)"
proof (cases "sint (RasterCount g) = 0 \<or> sint (RasterCount g) < 0 \<or> Create_error g \<noteq> None")
  case True
  with assms show ?thesis
    by (auto simp: processWithCreateMethod_def Let_def split: if_splits)
next
  case False
  define georef where "georef
    = LogMessage ''Using Create method.''
      # Create (outputFile j) (sint (RasterXSize g)) (sint (RasterYSize g)) (sint (RasterCount g))
      # (if ProjectionRef g then [SetProjection] else [])
      @ (if GeoTransform g then [SetGeoTransform] else [])"
  obtain r' evs' where pd: "processData j g (flag_after georef c) = (r', evs')"
    by (cases "processData j g (flag_after georef c)") auto
  have nf: "no_finished georef"
    by (simp add: georef_def)
  from False assms pd have res: "r = r'" "evs = georef @ evs' @ [GDALClose Output]"
    and ret: "r' \<noteq> Go"
    by (cases r'; auto simp: processWithCreateMethod_def Let_def georef_def)+
  from processData_reported[OF pd] have rep: "reported r' evs'" .
  show ?thesis
  proof (cases "r' = Ret False")
    case True
    with rep have "finished_last evs'" by (simp add: reported_def)
    from terminal_between[OF this nf, of "[GDALClose Output]"] True res show ?thesis
      by simp
  next
    case False
    with rep have "no_finished evs'" by (simp add: reported_def)
    moreover from False res ret assms(2) have "r = Ret True"
      by (cases r') auto
    ultimately show ?thesis using nf res by simp
  qed
qed

lemma run_copy_no_finished: "run_copy d c = (r, evs) \<Longrightarrow> no_finished evs"
  unfolding no_finished_def
  by (rule list_all_weaken[OF run_copy_events]) (auto elim: copy_event.elims)

lemma processWithCreateCopyMethod_reported:
  assumes "processWithCreateCopyMethod j g c = (r, evs)"
  shows "(r = Ret False \<and> finished_last (signals evs)) \<or> (r = Ret True \<and> no_finished evs)"
proof -
  let ?copying = "[LogMessage ''Using CreateCopy method.'', CreateCopy (outputFile j)]"
  obtain res evs' where rc: "run_copy (CreateCopy_driver g) (flag_after ?copying c) = (res, evs')"
    by (cases "run_copy (CreateCopy_driver g) (flag_after ?copying c)") auto
  from run_copy_no_finished[OF rc] assms rc show ?thesis
    by (cases res) (auto simp: processWithCreateCopyMethod_def Let_def)
qed

lemma no_finished_set_options [simp]: "no_finished (set_options opts)"
  by (induction opts rule: set_options.induct) auto

lemma no_finished_ready [simp]: "no_finished (ready j)"
  by (simp add: ready_def)

lemma after_path_terminal:
  assumes "(r = Ret False \<and> finished_last (signals evs)) \<or> (r = Ret True \<and> no_finished evs)"
  shows "fst (after_path j (r, evs)) = Go"
    and "finished_last (signals (snd (after_path j (r, evs))))"
  using assms by (auto simp: after_path_def)

lemma process_terminal:
  assumes "fst (process j g c) \<noteq> Undefined"
  shows "finished_last (signals (snd (process j g c)))"
proof (cases "OpenEx_error g = None \<and> driver_available g")
  case False
  then show ?thesis
    by (auto simp: process_def split: option.splits)
next
  case open_ok: True
  let ?cpu = "ready j @ [LogMessage ''Processing mode: CPU'']"
  show ?thesis
  proof (cases "processingMode j")
    case CPU
    show ?thesis
    proof (cases "DCAP_CREATE g")
      case True
      obtain r evs where m: "processWithCreateMethod j g (flag_after ?cpu c) = (r, evs)"
        by (cases "processWithCreateMethod j g (flag_after ?cpu c)") auto
      from assms open_ok CPU True m have "r \<noteq> Undefined"
        by (auto simp: process_def Let_def after_path_def split: prod.splits)
      from after_path_terminal(2)[OF processWithCreateMethod_reported[OF m this], of j]
      show ?thesis
        using open_ok CPU True m by (auto simp: process_def Let_def split: prod.splits)
    next
      case no_create: False
      show ?thesis
      proof (cases "DCAP_CREATECOPY g")
        case True
        obtain r evs where m: "processWithCreateCopyMethod j g (flag_after ?cpu c) = (r, evs)"
          by (cases "processWithCreateCopyMethod j g (flag_after ?cpu c)") auto
        from after_path_terminal(2)[OF processWithCreateCopyMethod_reported[OF m], of j]
        show ?thesis
          using open_ok CPU no_create True m
          by (auto simp: process_def Let_def split: prod.splits)
      next
        case False
        with open_ok CPU no_create show ?thesis
          by (simp add: process_def Let_def)
      qed
    qed
  next
    case GPU
    with open_ok show ?thesis by (simp add: process_def)
  next
    case OtherMode
    with open_ok show ?thesis by (simp add: process_def)
  qed
qed


section \<open>Runs that stay within defined behaviour\<close>

lemma read_bands_defined:
  "read_bands g x y w h n b = (r, evs) \<Longrightarrow> n < INT_MAX \<Longrightarrow> INT_MIN \<le> b \<Longrightarrow> r \<noteq> Undefined"
proof (induction g x y w h n b arbitrary: r evs rule: read_bands.induct)
  case (1 g x y w h n b)
  from "1.prems" "1.IH" show ?case
    by (subst (asm) read_bands.simps)
       (auto simp: int_add_def in_int_def split: option.splits prod.splits if_splits)
qed

lemma write_bands_defined:
  "write_bands g x y w h n b = (r, evs) \<Longrightarrow> n < INT_MAX \<Longrightarrow> INT_MIN \<le> b \<Longrightarrow> r \<noteq> Undefined"
proof (induction g x y w h n b arbitrary: r evs rule: write_bands.induct)
  case (1 g x y w h n b)
  from "1.prems" "1.IH" show ?case
    by (subst (asm) write_bands.simps)
       (auto simp: int_add_def in_int_def split: option.splits prod.splits if_splits)
qed

lemma tile_body_defined:
  "tile_body g x y w h n c = (r, evs) \<Longrightarrow> 0 \<le> n \<Longrightarrow> n < INT_MAX \<Longrightarrow> r \<noteq> Undefined"
  by (auto simp: tile_body_def INT_MIN_def
      dest: read_bands_defined write_bands_defined
      split: prod.splits ctl.splits bool.splits if_splits)

lemma col_step_defined:
  assumes "0 \<le> n" "n < INT_MAX" "0 \<le> x" "W \<le> INT_MAX - 256"
  shows "col_step g W n t y h x d c = Stop (r, evs, d') \<Longrightarrow> r \<noteq> Undefined"
    and "col_step g W n t y h x d c = Again tile d1 x1 \<Longrightarrow> 0 \<le> x1"
  using assms
  by (auto simp: col_step_def Let_def int_add_def int_sub_def in_int_def INT_MIN_def INT_MAX_def
      dest: tile_body_defined
      split: if_splits option.splits prod.splits ctl.splits bool.splits)

lemma cols_loop_defined:
  "cols_loop g W n t y h x d c = (r, evs, d') \<Longrightarrow>
     0 \<le> n \<Longrightarrow> n < INT_MAX \<Longrightarrow> 0 \<le> x \<Longrightarrow> W \<le> INT_MAX - 256 \<Longrightarrow> r \<noteq> Undefined"
proof (induction g W n t y h x d c arbitrary: r evs d' rule: cols_loop.induct)
  case (1 g W n t y h x d c)
  show ?case
  proof (cases "col_step g W n t y h x d c")
    case (Stop res)
    with "1.prems" col_step_defined(1)[of n x W g t y h d c] show ?thesis
      by (cases res) (auto simp: cols_loop.simps)
  next
    case (Again tile d1 x1)
    from col_step_defined(2)[OF "1.prems"(2,3,4,5) Again] have "0 \<le> x1" .
    with "1.prems" Again "1.IH"[OF Again] show ?thesis
      by (auto simp: cols_loop.simps split: prod.splits)
  qed
qed

lemma row_step_defined:
  assumes "0 \<le> n" "n < INT_MAX" "0 \<le> y" "W \<le> INT_MAX - 256" "H \<le> INT_MAX - 256"
  shows "row_step g W H n t y d c = Stop (r, evs, d') \<Longrightarrow> r \<noteq> Undefined"
    and "row_step g W H n t y d c = Again row d1 y1 \<Longrightarrow> 0 \<le> y1"
  using assms
  by (auto simp: row_step_def int_add_def int_sub_def in_int_def INT_MIN_def INT_MAX_def
      dest: cols_loop_defined
      split: if_splits option.splits prod.splits ctl.splits bool.splits)

lemma rows_loop_defined:
  "rows_loop g W H n t y d c = (r, evs, d') \<Longrightarrow>
     0 \<le> n \<Longrightarrow> n < INT_MAX \<Longrightarrow> 0 \<le> y \<Longrightarrow> W \<le> INT_MAX - 256 \<Longrightarrow> H \<le> INT_MAX - 256
     \<Longrightarrow> r \<noteq> Undefined"
proof (induction g W H n t y d c arbitrary: r evs d' rule: rows_loop.induct)
  case (1 g W H n t y d c)
  show ?case
  proof (cases "row_step g W H n t y d c")
    case (Stop res)
    with "1.prems" row_step_defined(1)[of n y W H g t d c] show ?thesis
      by (cases res) (auto simp: rows_loop.simps)
  next
    case (Again row d1 y1)
    from row_step_defined(2)[OF "1.prems"(2,3,4,5,6) Again] have "0 \<le> y1" .
    with "1.prems" Again "1.IH"[OF Again] show ?thesis
      by (auto simp: rows_loop.simps split: prod.splits)
  qed
qed

lemma block_count_in_range:
  "0 \<le> n \<Longrightarrow> n \<le> INT_MAX - 256 \<Longrightarrow> block_count n 256 = Some (blocks n)"
proof -
  assume n: "0 \<le> n" "n \<le> INT_MAX - 256"
  then have "(255 + n) sdiv 256 = (255 + n) div 256"
    by (simp add: signed_divide_int_def sgn_if)
  moreover from n have "0 \<le> (255 + n) div 256" "(255 + n) div 256 \<le> 2147483647"
    by (simp_all add: INT_MAX_def)
  ultimately show ?thesis
    using n
    by (simp add: block_count_def blocks_def int_add_def int_sub_def int_div_def in_int_def
        INT_MAX_def INT_MIN_def add.commute)
qed

lemma processData_defined:
  assumes "in_range g" and "processData j g c = (r, evs)"
  shows "r \<noteq> Undefined"
proof -
  let ?W = "sint (RasterXSize g)" and ?H = "sint (RasterYSize g)" and ?n = "sint (RasterCount g)"
  from assms(1) have bx: "block_count ?W 256 = Some (blocks ?W)"
    and "by": "block_count ?H 256 = Some (blocks ?H)"
    by (simp_all add: in_range_def block_count_in_range)
  have "0 \<le> blocks ?W" "0 \<le> blocks ?H"
    using assms(1) by (simp_all add: in_range_def blocks_def pos_imp_zdiv_nonneg_iff)
  then have "0 \<le> blocks ?W * blocks ?H"
    by (rule mult_nonneg_nonneg)
  with assms(1) have mul: "int_mul (blocks ?W) (blocks ?H) = Some (blocks ?W * blocks ?H)"
    by (simp add: in_range_def int_mul_def in_int_def INT_MIN_def)
  have loop: "r' \<noteq> Undefined"
    if "rows_loop g ?W ?H ?n t 0 0 c' = (r', evs', d')" for t c' r' evs' d'
    using rows_loop_defined[OF that] assms(1) by (simp add: in_range_def)
  from assms(2) show ?thesis
    by (auto simp: processData_def Let_def bx "by" mul dest: loop
        split: prod.splits ctl.splits if_splits)
qed

lemma processWithCreateMethod_defined:
  assumes "in_range g" and "processWithCreateMethod j g c = (r, evs)"
  shows "r \<noteq> Undefined"
proof -
  have "\<exists>b. r' = Ret b" if "processData j g c' = (r', evs')" for c' r' evs'
    using processData_defined[OF assms(1) that] processData_reported[OF that] that
    by (cases r') (auto simp: processData_def Let_def dest: 
        split: option.splits prod.splits ctl.splits if_splits)
  with assms show ?thesis
    by (auto simp: processWithCreateMethod_def Let_def in_range_def
        split: option.splits prod.splits ctl.splits if_splits)
qed

lemma process_defined:
  assumes "in_range g"
  shows "fst (process j g c) \<noteq> Undefined"
proof -
  have m: "r \<noteq> Undefined" if "after_path j (processWithCreateMethod j g c') = (r, evs)"
    for c' r evs
    using processWithCreateMethod_defined[OF assms, of j c']
      processWithCreateMethod_reported[of j g c'] that
    by (cases "processWithCreateMethod j g c'") (auto simp: after_path_def)
  have k: "r \<noteq> Undefined" if "after_path j (processWithCreateCopyMethod j g c') = (r, evs)"
    for c' r evs
    using processWithCreateCopyMethod_reported[of j g c'] that
    by (cases "processWithCreateCopyMethod j g c'") (auto simp: after_path_def)
  show ?thesis
    by (auto simp: process_def Let_def dest: m k
        split: option.splits prod.splits ProcessingMode.splits)
qed

text \<open>
  C6, amended: every job whose run stays within defined behaviour emits exactly one
  \<open>finished\<close> signal, and it is the last signal of the job: every \<open>logMessage\<close> and
  \<open>progressUpdated\<close> comes before it. The run stays within defined behaviour whenever
  the source is within \<open>in_range\<close>. (On a source 2147483647 pixels wide
  \<open>nXSize + blockSizeX\<close> overflows \<open>int\<close> in \<open>processData\<close> and no \<open>finished\<close> signal
  is guaranteed.)
\<close>

theorem one_terminal_signal:
  "(in_range g \<longrightarrow> fst (process j g c) \<noteq> Undefined)
   \<and> (fst (process j g c) \<noteq> Undefined \<longrightarrow> finished_last (signals (snd (process j g c))))"
  using process_defined[of g j c] process_terminal[of j g c] by blast

theorem one_terminal_signal_witness:
  "in_range demo_gdal \<and> finished_last (signals (snd (process demo_job demo_gdal None)))"
  using one_terminal_signal[of demo_gdal demo_job None]
  by (simp add: in_range_def demo_gdal_def INT_MAX_def blocks_def)

theorem one_terminal_signal_counterexample:
  "\<not> (\<forall>j g c. finished_last (signals (snd (process j g c))))"
proof
  assume "\<forall>j g c. finished_last (signals (snd (process j g c)))"
  then have "finished_last (signals (snd (process demo_job (demo_gdal\<lparr>RasterXSize := 2147483647\<rparr>) None)))"
    by blast
  then show False
    by (simp add: process_def demo_job_def demo_gdal_def ready_def after_path_def
        processWithCreateMethod_def processData_def block_count_def int_add_def in_int_def
        INT_MAX_def INT_MIN_def flag_after_def finished_last_def)
qed


section \<open>A run that is never cancelled and meets no error\<close>

lemma tiles_read_simps [simp]:
  "tiles_read [] = []"
  "tiles_read (e # evs) = tile_of e @ tiles_read evs"
  "tiles_read (evs @ evs') = tiles_read evs @ tiles_read evs'"
  by (simp_all add: tiles_read_def)

lemma tiles_written_simps [simp]:
  "tiles_written n [] = []"
  "tiles_written n (e # evs) = written_of n e @ tiles_written n evs"
  "tiles_written n (evs @ evs') = tiles_written n evs @ tiles_written n evs'"
  by (simp_all add: tiles_written_def)

lemma progress_of_simps [simp]:
  "progress_of [] = []"
  "progress_of (e # evs) = fraction_of e @ progress_of evs"
  "progress_of (evs @ evs') = progress_of evs @ progress_of evs'"
  by (simp_all add: progress_of_def)

lemma flag_after_None [simp]: "flag_after evs None = None"
  by (simp add: flag_after_def)

lemma isConverting_None [simp]: "isConverting None"
  by (simp add: isConverting_def)

lemma read_bands_ok:
  assumes "\<And>b. Read_error g x y b = None" and "n < INT_MAX"
  shows "INT_MIN \<le> b \<Longrightarrow>
    read_bands g x y w h n b = (Go, map (\<lambda>i. RasterIO GF_Read x y w h i CE_None) [b..n])"
proof (induction "nat (n + 1 - b)" arbitrary: b)
  case 0
  then show ?case by (simp add: read_bands.simps)
next
  case (Suc k)
  then have le: "b \<le> n" by simp
  with assms(2) Suc.prems have add: "int_add b 1 = Some (b + 1)"
    by (simp add: int_add_def in_int_def INT_MAX_def INT_MIN_def)
  from Suc.hyps(2) have "k = nat (n + 1 - (b + 1))" by simp
  from Suc.hyps(1)[OF this] Suc.prems
  have "read_bands g x y w h n (b + 1)
      = (Go, map (\<lambda>i. RasterIO GF_Read x y w h i CE_None) [b + 1..n])"
    by simp
  then show ?case
    by (subst read_bands.simps) (simp add: le assms(1) add upto_rec1[OF le])
qed

lemma write_bands_ok:
  assumes "\<And>b. Write_error g x y b = None" and "n < INT_MAX"
  shows "INT_MIN \<le> b \<Longrightarrow>
    write_bands g x y w h n b = (Go, map (\<lambda>i. RasterIO GF_Write x y w h i CE_None) [b..n])"
proof (induction "nat (n + 1 - b)" arbitrary: b)
  case 0
  then show ?case by (simp add: write_bands.simps)
next
  case (Suc k)
  then have le: "b \<le> n" by simp
  with assms(2) Suc.prems have add: "int_add b 1 = Some (b + 1)"
    by (simp add: int_add_def in_int_def INT_MAX_def INT_MIN_def)
  from Suc.hyps(2) have "k = nat (n + 1 - (b + 1))" by simp
  from Suc.hyps(1)[OF this] Suc.prems
  have "write_bands g x y w h n (b + 1)
      = (Go, map (\<lambda>i. RasterIO GF_Write x y w h i CE_None) [b + 1..n])"
    by simp
  then show ?case
    by (subst write_bands.simps) (simp add: le assms(1) add upto_rec1[OF le])
qed

text \<open>What the band reads and writes of one tile show.\<close>

lemma reads_observed:
  "1 \<le> n \<Longrightarrow> tiles_read (map (\<lambda>i. RasterIO GF_Read x y w h i CE_None) [1..n]) = [(x, y, w, h)]"
  "tiles_written n' (map (\<lambda>i. RasterIO GF_Read x y w h i CE_None) [b..n]) = []"
  "progress_of (map (\<lambda>i. RasterIO GF_Read x y w h i CE_None) [b..n]) = []"
proof -
  have "tiles_read (map (\<lambda>i. RasterIO GF_Read x y w h i CE_None) [2..n]) = []"
    by (auto simp: tiles_read_def)
  then show "1 \<le> n \<Longrightarrow>
      tiles_read (map (\<lambda>i. RasterIO GF_Read x y w h i CE_None) [1..n]) = [(x, y, w, h)]"
    by (simp add: upto_rec1[of 1 n])
qed (auto simp: tiles_written_def progress_of_def)

lemma writes_observed:
  "1 \<le> n \<Longrightarrow> tiles_written n (map (\<lambda>i. RasterIO GF_Write x y w h i CE_None) [1..n]) = [(x, y, w, h)]"
  "tiles_read (map (\<lambda>i. RasterIO GF_Write x y w h i CE_None) [b..n]) = []"
  "progress_of (map (\<lambda>i. RasterIO GF_Write x y w h i CE_None) [b..n]) = []"
proof -
  have "tiles_written n (map (\<lambda>i. RasterIO GF_Write x y w h i CE_None) [1..n - 1]) = []"
    by (auto simp: tiles_written_def)
  then show "1 \<le> n \<Longrightarrow>
      tiles_written n (map (\<lambda>i. RasterIO GF_Write x y w h i CE_None) [1..n]) = [(x, y, w, h)]"
    by (simp add: upto_rec2[of 1 n])
qed (auto simp: tiles_read_def progress_of_def)

lemma wrap_int_id: "INT_MIN \<le> v \<Longrightarrow> v \<le> INT_MAX \<Longrightarrow> wrap_int v = v"
  by (simp add: wrap_int_def INT_MIN_def INT_MAX_def)

lemma col_step_ok:
  assumes "\<And>x y b. Read_error g x y b = None" and "\<And>x y b. Write_error g x y b = None"
    and "1 \<le> n" and "n < INT_MAX" and "W \<le> INT_MAX - 256"
    and "0 \<le> x" and "x < W" and "0 \<le> d" and "d < INT_MAX"
  shows "\<exists>tile. col_step g W n t y h x d None = Again tile (d + 1) (x + 256)
           \<and> tiles_read tile = [(x, y, min 256 (W - x), h)]
           \<and> tiles_written n tile = [(x, y, min 256 (W - x), h)]
           \<and> progress_of tile = [of_int (d + 1) / of_int t]"
proof -
  let ?w = "min 256 (W - x)"
  let ?reads = "map (\<lambda>i. RasterIO GF_Read x y ?w h i CE_None) [1..n]"
  let ?writes = "map (\<lambda>i. RasterIO GF_Write x y ?w h i CE_None) [1..n]"
  have tb: "tile_body g x y ?w h n None = (Go, ?reads @ Load True # ?writes)"
    using assms(3,4)
    by (simp add: tile_body_def read_bands_ok[OF assms(1,4)] write_bands_ok[OF assms(2,4)]
        INT_MIN_def)
  have sub: "int_sub W x = Some (W - x)" and add: "int_add x 256 = Some (x + 256)"
    using assms(5,6,7) by (simp_all add: int_sub_def int_add_def in_int_def INT_MIN_def INT_MAX_def)
  have w: "wrap_int (d + 1) = d + 1"
    using assms(8,9) by (simp add: wrap_int_id INT_MIN_def)
  show ?thesis
    using assms(3,7)
    by (simp add: col_step_def sub add tb w Let_def reads_observed writes_observed)
qed

lemma lt_blocks: "0 \<le> i \<Longrightarrow> 256 * i < W \<longleftrightarrow> i < blocks W"
  unfolding blocks_def by arith

lemma cols_loop_ok:
  assumes "\<And>x y b. Read_error g x y b = None" and "\<And>x y b. Write_error g x y b = None"
    and "1 \<le> n" and "n < INT_MAX" and "W \<le> INT_MAX - 256"
  shows "0 \<le> i \<Longrightarrow> 0 \<le> d \<Longrightarrow> d + (blocks W - i) \<le> INT_MAX \<Longrightarrow>
    \<exists>evs. cols_loop g W n t y h (256 * i) d None = (Go, evs, d + max 0 (blocks W - i))
      \<and> tiles_read evs = map (\<lambda>m. (256 * m, y, min 256 (W - 256 * m), h)) [i..blocks W - 1]
      \<and> tiles_written n evs = map (\<lambda>m. (256 * m, y, min 256 (W - 256 * m), h)) [i..blocks W - 1]"
proof (induction "nat (blocks W - i)" arbitrary: i d)
  case 0
  then have "\<not> 256 * i < W" by (simp add: lt_blocks)
  with 0 show ?case
    by (simp add: cols_loop.simps col_step_def)
next
  case (Suc k)
  then have lt: "i < blocks W" by simp
  with Suc.prems have x: "256 * i < W" by (simp add: lt_blocks)
  from Suc.prems lt have d: "d < INT_MAX" by simp
  from col_step_ok[OF assms _ x Suc.prems(2) d, of t y h] Suc.prems(1)
  obtain tile where step: "col_step g W n t y h (256 * i) d None = Again tile (d + 1) (256 * i + 256)"
    and tile: "tiles_read tile = [(256 * i, y, min 256 (W - 256 * i), h)]"
      "tiles_written n tile = [(256 * i, y, min 256 (W - 256 * i), h)]"
    by auto
  from Suc.hyps(2) have "k = nat (blocks W - (i + 1))" by simp
  from Suc.hyps(1)[OF this, of "d + 1"] Suc.prems lt
  obtain evs where rec: "cols_loop g W n t y h (256 * (i + 1)) (d + 1) None
      = (Go, evs, d + 1 + max 0 (blocks W - (i + 1)))"
    and evs: "tiles_read evs = map (\<lambda>m. (256 * m, y, min 256 (W - 256 * m), h)) [i + 1..blocks W - 1]"
      "tiles_written n evs = map (\<lambda>m. (256 * m, y, min 256 (W - 256 * m), h)) [i + 1..blocks W - 1]"
    by auto
  have "256 * (i + 1) = 256 * i + 256" by simp
  with rec have rec': "cols_loop g W n t y h (256 * i + 256) (d + 1) None
      = (Go, evs, d + 1 + max 0 (blocks W - (i + 1)))"
    by simp
  have upto: "[i..blocks W - 1] = i # [i + 1..blocks W - 1]"
    using lt by (simp add: upto_rec1)
  show ?case
    using lt
    by (subst cols_loop.simps) (simp add: step rec' tile evs upto)
qed

lemma row_step_ok:
  assumes "\<And>x y b. Read_error g x y b = None" and "\<And>x y b. Write_error g x y b = None"
    and "1 \<le> n" and "n < INT_MAX" and "0 \<le> W" and "W \<le> INT_MAX - 256" and "H \<le> INT_MAX - 256"
    and "0 \<le> y" and "y < H" and "0 \<le> d" and "d + blocks W \<le> INT_MAX"
  shows "\<exists>row. row_step g W H n t y d None = Again row (d + blocks W) (y + 256)
           \<and> tiles_read row = tile_row W y (min 256 (H - y))
           \<and> tiles_written n row = tile_row W y (min 256 (H - y))"
proof -
  have sub: "int_sub H y = Some (H - y)" and add: "int_add y 256 = Some (y + 256)"
    using assms(7,8,9) by (simp_all add: int_sub_def int_add_def in_int_def INT_MIN_def INT_MAX_def)
  have "0 \<le> blocks W"
    using assms(5) by (simp add: blocks_def pos_imp_zdiv_nonneg_iff)
  with cols_loop_ok[OF assms(1,2,3,4,6), of 0 d t y "min 256 (H - y)"] assms(10,11)
  obtain evs where "cols_loop g W n t y (min 256 (H - y)) 0 d None = (Go, evs, d + blocks W)"
    and "tiles_read evs = tile_row W y (min 256 (H - y))"
    and "tiles_written n evs = tile_row W y (min 256 (H - y))"
    by (auto simp: tile_row_def)
  with assms(9) show ?thesis
    by (simp add: row_step_def sub add)
qed

lemma rows_loop_ok:
  assumes "\<And>x y b. Read_error g x y b = None" and "\<And>x y b. Write_error g x y b = None"
    and "1 \<le> n" and "n < INT_MAX" and "0 \<le> W" and "W \<le> INT_MAX - 256" and "H \<le> INT_MAX - 256"
  shows "0 \<le> j \<Longrightarrow> 0 \<le> d \<Longrightarrow> d + blocks W * (blocks H - j) \<le> INT_MAX \<Longrightarrow>
    \<exists>evs. rows_loop g W H n t (256 * j) d None
        = (Go, evs, d + blocks W * max 0 (blocks H - j))
      \<and> tiles_read evs
          = concat (map (\<lambda>m. tile_row W (256 * m) (min 256 (H - 256 * m))) [j..blocks H - 1])
      \<and> tiles_written n evs
          = concat (map (\<lambda>m. tile_row W (256 * m) (min 256 (H - 256 * m))) [j..blocks H - 1])"
proof (induction "nat (blocks H - j)" arbitrary: j d)
  case 0
  then have "\<not> 256 * j < H" by (simp add: lt_blocks)
  with 0 show ?case
    by (simp add: rows_loop.simps row_step_def)
next
  case (Suc k)
  then have lt: "j < blocks H" by simp
  with Suc.prems have y: "256 * j < H" by (simp add: lt_blocks)
  have bw: "0 \<le> blocks W"
    using assms(5) by (simp add: blocks_def pos_imp_zdiv_nonneg_iff)
  have split: "blocks W * (blocks H - j) = blocks W + blocks W * (blocks H - (j + 1))"
    by (simp add: algebra_simps)
  have rest: "0 \<le> blocks W * (blocks H - (j + 1))"
    using bw lt by (intro mult_nonneg_nonneg) simp_all
  from Suc.prems(3) rest have d: "d + blocks W \<le> INT_MAX"
    unfolding split by linarith
  from row_step_ok[OF assms _ y Suc.prems(2) d, of t] Suc.prems(1)
  obtain row where step: "row_step g W H n t (256 * j) d None
      = Again row (d + blocks W) (256 * j + 256)"
    and row: "tiles_read row = tile_row W (256 * j) (min 256 (H - 256 * j))"
      "tiles_written n row = tile_row W (256 * j) (min 256 (H - 256 * j))"
    by auto
  from Suc.hyps(2) have k: "k = nat (blocks H - (j + 1))" by simp
  have "d + blocks W + blocks W * (blocks H - (j + 1)) \<le> INT_MAX"
    using Suc.prems(3) unfolding split by linarith
  with Suc.hyps(1)[OF k, of "d + blocks W"] Suc.prems bw
  obtain evs where rec: "rows_loop g W H n t (256 * (j + 1)) (d + blocks W) None
      = (Go, evs, d + blocks W + blocks W * max 0 (blocks H - (j + 1)))"
    and evs: "tiles_read evs
        = concat (map (\<lambda>m. tile_row W (256 * m) (min 256 (H - 256 * m))) [j + 1..blocks H - 1])"
      "tiles_written n evs
        = concat (map (\<lambda>m. tile_row W (256 * m) (min 256 (H - 256 * m))) [j + 1..blocks H - 1])"
    by auto
  have "256 * (j + 1) = 256 * j + 256" by simp
  with rec have rec': "rows_loop g W H n t (256 * j + 256) (d + blocks W) None
      = (Go, evs, d + blocks W + blocks W * max 0 (blocks H - (j + 1)))"
    by simp
  have upto: "[j..blocks H - 1] = j # [j + 1..blocks H - 1]"
    using lt by (simp add: upto_rec1)
  have total: "d + blocks W + blocks W * max 0 (blocks H - (j + 1))
      = d + blocks W * max 0 (blocks H - j)"
    using lt by (simp add: algebra_simps max_def)
  show ?case
    by (subst rows_loop.simps) (simp add: step rec' row evs upto total)
qed


section \<open>The tiling partitions the raster\<close>

lemma blocks_ceiling: "blocks n = \<lceil>real_of_int n / 256\<rceil>"
proof -
  have "\<lceil>real_of_int n / real_of_int 256\<rceil> = - (- n div 256)"
    by (rule ceiling_divide_eq_div)
  also have "\<dots> = (n + 255) div 256"
    by arith
  finally show ?thesis
    by (simp add: blocks_def)
qed

lemma blocks_nonneg: "0 \<le> n \<Longrightarrow> 0 \<le> blocks n"
  by (simp add: blocks_def pos_imp_zdiv_nonneg_iff)

lemma length_tile_row: "0 \<le> W \<Longrightarrow> length (tile_row W y h) = nat (blocks W)"
  by (simp add: tile_row_def)

lemma length_tile_grid:
  assumes "0 \<le> W" and "0 \<le> H"
  shows "int (length (tile_grid W H)) = blocks W * blocks H"
proof -
  have "length (tile_grid W H) = nat (blocks H) * nat (blocks W)"
    using assms by (simp add: tile_grid_def length_concat comp_def length_tile_row sum_list_triv)
  then show ?thesis
    using blocks_nonneg[OF assms(1)] blocks_nonneg[OF assms(2)] by (simp add: mult.commute)
qed

lemma sum_clipped:
  "0 \<le> i \<Longrightarrow> sum_list (map (\<lambda>m. min 256 (W - 256 * m)) [i..blocks W - 1]) = max 0 (W - 256 * i)"
proof (induction "nat (blocks W - i)" arbitrary: i)
  case 0
  then have "\<not> 256 * i < W" by (simp add: lt_blocks)
  with 0 show ?case by simp
next
  case (Suc k)
  then have lt: "i < blocks W" by simp
  with Suc.prems have x: "256 * i < W" by (simp add: lt_blocks)
  from Suc.hyps(2) have "k = nat (blocks W - (i + 1))" by simp
  from Suc.hyps(1)[OF this] Suc.prems
  have "sum_list (map (\<lambda>m. min 256 (W - 256 * m)) [i + 1..blocks W - 1]) = max 0 (W - 256 * (i + 1))"
    by simp
  with x lt show ?case
    by (simp add: upto_rec1[of i "blocks W - 1"])
qed

lemma area_tile_row: "0 \<le> W \<Longrightarrow> sum_list (map area (tile_row W y h)) = W * h"
proof -
  assume W: "0 \<le> W"
  have "sum_list (map area (tile_row W y h))
      = sum_list (map (\<lambda>m. min 256 (W - 256 * m) * h) [0..blocks W - 1])"
    by (simp add: tile_row_def comp_def)
  also have "\<dots> = sum_list (map (\<lambda>m. min 256 (W - 256 * m)) [0..blocks W - 1]) * h"
    by (simp add: sum_list_mult_const)
  also have "\<dots> = W * h"
    using sum_clipped[of 0 W] W by simp
  finally show ?thesis .
qed

lemma concat_if_singleton:
  "concat (map (\<lambda>j. if P j then [f j] else []) xs) = map f (filter P xs)"
  by (induction xs) auto

lemma sum_list_concat_map:
  "sum_list (concat (map f xs)) = sum_list (map (\<lambda>x. sum_list (f x)) xs)"
  for f :: "'a \<Rightarrow> int list"
  by (induction xs) auto

lemma area_tile_grid:
  assumes "0 \<le> W" and "0 \<le> H"
  shows "sum_list (map area (tile_grid W H)) = W * H"
proof -
  have "sum_list (map area (tile_grid W H))
      = sum_list (map (\<lambda>j. W * min 256 (H - 256 * j)) [0..blocks H - 1])"
    using assms(1)
    by (simp add: tile_grid_def map_concat sum_list_concat_map comp_def area_tile_row)
  also have "\<dots> = W * sum_list (map (\<lambda>j. min 256 (H - 256 * j)) [0..blocks H - 1])"
    by (simp add: sum_list_const_mult)
  also have "\<dots> = W * H"
    using sum_clipped[of 0 H] assms(2) by simp
  finally show ?thesis .
qed

lemma filter_eq_upto: "l \<le> a \<Longrightarrow> a \<le> u \<Longrightarrow> filter (\<lambda>i. i = a) [l..u] = [a]"
  by (simp add: upto_split3[of l a u])

lemma filter_block:
  assumes "0 \<le> p" and "p < N"
  shows "filter (\<lambda>i. 256 * i \<le> p \<and> p < 256 * i + min 256 (N - 256 * i)) [0..blocks N - 1]
           = [p div 256]"
proof -
  have "filter (\<lambda>i. 256 * i \<le> p \<and> p < 256 * i + min 256 (N - 256 * i)) [0..blocks N - 1]
      = filter (\<lambda>i. i = p div 256) [0..blocks N - 1]"
    using assms by (intro filter_cong refl) (auto simp: min_def)
  also have "\<dots> = [p div 256]"
  proof (rule filter_eq_upto)
    show "0 \<le> p div 256" using assms(1) by (simp add: pos_imp_zdiv_nonneg_iff)
    have "256 * (p div 256) < N" using assms by arith
    then show "p div 256 \<le> blocks N - 1"
      using assms(1) lt_blocks[of "p div 256" N] by (simp add: pos_imp_zdiv_nonneg_iff)
  qed
  finally show ?thesis .
qed

lemma covers_tile_row:
  assumes "0 \<le> px" and "px < W"
  shows "filter (covers px py) (tile_row W y h)
           = (if y \<le> py \<and> py < y + h
              then [(256 * (px div 256), y, min 256 (W - 256 * (px div 256)), h)] else [])"
proof (cases "y \<le> py \<and> py < y + h")
  case True
  then have "filter (covers px py) (tile_row W y h)
      = map (\<lambda>i. (256 * i, y, min 256 (W - 256 * i), h))
          (filter (\<lambda>i. 256 * i \<le> px \<and> px < 256 * i + min 256 (W - 256 * i)) [0..blocks W - 1])"
    by (simp add: tile_row_def filter_map comp_def)
  with True show ?thesis
    by (simp add: filter_block[OF assms])
next
  case False
  then show ?thesis
    by (auto simp: tile_row_def filter_map comp_def)
qed

lemma covers_tile_grid:
  assumes "0 \<le> px" and "px < W" and "0 \<le> py" and "py < H"
  shows "filter (covers px py) (tile_grid W H)
           = [(256 * (px div 256), 256 * (py div 256),
               min 256 (W - 256 * (px div 256)), min 256 (H - 256 * (py div 256)))]"
proof -
  let ?t = "\<lambda>j. (256 * (px div 256), 256 * j, min 256 (W - 256 * (px div 256)),
                 min 256 (H - 256 * j))"
  let ?in = "\<lambda>j. 256 * j \<le> py \<and> py < 256 * j + min 256 (H - 256 * j)"
  have "filter (covers px py) (tile_grid W H)
      = concat (map (\<lambda>j. if ?in j then [?t j] else []) [0..blocks H - 1])"
    by (simp add: tile_grid_def filter_concat comp_def covers_tile_row[OF assms(1,2)])
  also have "\<dots> = map ?t (filter ?in [0..blocks H - 1])"
    by (rule concat_if_singleton)
  also have "\<dots> = [?t (py div 256)]"
    by (simp add: filter_block[OF assms(3,4)])
  finally show ?thesis .
qed

lemma tile_grid_clipped:
  assumes "0 < W" and "0 < H"
  shows "list_all (\<lambda>(x, y, w, h). 0 \<le> x \<and> 0 \<le> y \<and> 0 < w \<and> 0 < h
           \<and> w = min 256 (W - x) \<and> h = min 256 (H - y)) (tile_grid W H)"
proof -
  have "256 * i < N" if "0 \<le> i" "i \<le> blocks N - 1" for i N
    using that lt_blocks[of i N] by simp
  then show ?thesis
    by (auto simp: tile_grid_def tile_row_def list_all_iff)
qed

section \<open>The progress fractions of the tile loop\<close>

lemma read_bands_no_progress: "read_bands g x y w h n b = (r, evs) \<Longrightarrow> progress_of evs = []"
proof (induction g x y w h n b arbitrary: r evs rule: read_bands.induct)
  case (1 g x y w h n b)
  from "1.prems" "1.IH" show ?case
    by (subst (asm) read_bands.simps) (auto split: option.splits prod.splits if_splits)
qed

lemma write_bands_no_progress: "write_bands g x y w h n b = (r, evs) \<Longrightarrow> progress_of evs = []"
proof (induction g x y w h n b arbitrary: r evs rule: write_bands.induct)
  case (1 g x y w h n b)
  from "1.prems" "1.IH" show ?case
    by (subst (asm) write_bands.simps) (auto split: option.splits prod.splits if_splits)
qed

lemma tile_body_no_progress: "tile_body g x y w h n c = (r, evs) \<Longrightarrow> progress_of evs = []"
  by (auto simp: tile_body_def dest: read_bands_no_progress write_bands_no_progress
      split: prod.splits ctl.splits bool.splits if_splits)

lemma col_step_progress:
  assumes "0 \<le> d" and "x < W \<longrightarrow> d < INT_MAX"
  shows "col_step g W n t y h x d c = Stop (r, evs, d') \<Longrightarrow>
           d \<le> d' \<and> (d' = d \<or> d' = d + 1 \<and> x < W) \<and> progress_of evs = fractions t d d'"
    and "col_step g W n t y h x d c = Again tile d1 x1 \<Longrightarrow>
           d1 = d + 1 \<and> progress_of tile = fractions t d (d + 1)"
  using assms
  by (auto simp: col_step_def Let_def wrap_int_id INT_MIN_def
      dest: tile_body_no_progress
      split: if_splits option.splits prod.splits ctl.splits bool.splits)

text \<open>The passes the inner loop still makes from \<open>x\<close>, and the outer loop from \<open>y\<close>.\<close>

lemma passes_step: "x < N \<Longrightarrow> max 0 (blocks (N - x)) = 1 + max 0 (blocks (N - (x + 256)))"
  unfolding blocks_def by arith

lemma passes_done: "\<not> x < N \<Longrightarrow> max 0 (blocks (N - x)) = 0"
  unfolding blocks_def by arith


lemma fractions_append:
  "d \<le> d1 \<Longrightarrow> d1 \<le> d' \<Longrightarrow> fractions t d d1 @ fractions t d1 d' = fractions t d d'"
proof (cases "d = d1")
  case True
  then show ?thesis by simp
next
  case False
  assume "d \<le> d1" "d1 \<le> d'"
  with False have "[d + 1..d'] = [d + 1..d1] @ [d1 + 1..d']"
    by (intro upto_split2) simp_all
  then show ?thesis by simp
qed

lemma cols_loop_progress:
  "cols_loop g W n t y h x d c = (r, evs, d') \<Longrightarrow>
     0 \<le> d \<Longrightarrow> d + max 0 (blocks (W - x)) \<le> INT_MAX \<Longrightarrow>
     d \<le> d' \<and> d' \<le> d + max 0 (blocks (W - x)) \<and> progress_of evs = fractions t d d'"
proof (induction g W n t y h x d c arbitrary: r evs d' rule: cols_loop.induct)
  case (1 g W n t y h x d c)
  have small: "x < W \<longrightarrow> d < INT_MAX"
    using "1.prems"(3) passes_step[of x W] by auto
  show ?case
  proof (cases "col_step g W n t y h x d c")
    case (Stop res)
    with "1.prems"(1) have "col_step g W n t y h x d c = Stop (r, evs, d')"
      by (simp add: cols_loop.simps)
    from col_step_progress(1)[OF "1.prems"(2) small this] passes_step[of x W]
    show ?thesis by auto
  next
    case (Again tile d1 x1)
    from col_step_progress(2)[OF "1.prems"(2) small Again]
    have d1: "d1 = d + 1" and tile: "progress_of tile = fractions t d (d + 1)" by simp_all
    from Again have x: "x < W" "x1 = x + 256"
      by (auto simp: col_step_def Let_def int_add_def
          split: if_splits option.splits prod.splits ctl.splits)
    obtain r1 evs1 where rec: "cols_loop g W n t y h x1 d1 (flag_after tile c) = (r1, evs1, d')"
      and evs: "evs = tile @ evs1"
      using "1.prems"(1) Again by (auto simp: cols_loop.simps split: prod.splits)
    from "1.prems"(2,3) x d1 passes_step[OF x(1)]
    have "0 \<le> d1" "d1 + max 0 (blocks (W - x1)) \<le> INT_MAX" by simp_all
    from "1.IH"[OF Again rec this]
    have IH: "d1 \<le> d'" "d' \<le> d1 + max 0 (blocks (W - x1))" "progress_of evs1 = fractions t d1 d'"
      by simp_all
    have "fractions t d (d + 1) @ fractions t (d + 1) d' = fractions t d d'"
      using IH(1) d1 by (intro fractions_append) simp_all
    with IH d1 x tile evs passes_step[OF x(1)] show ?thesis
      by simp
  qed
qed

lemma row_step_progress:
  assumes "0 \<le> d" and "d + max 0 (blocks W) \<le> INT_MAX"
  shows "row_step g W H n t y d c = Stop (r, evs, d') \<Longrightarrow>
           d \<le> d' \<and> (d' = d \<or> d' \<le> d + max 0 (blocks W) \<and> y < H)
           \<and> progress_of evs = fractions t d d'"
    and "row_step g W H n t y d c = Again row d1 y1 \<Longrightarrow>
           d \<le> d1 \<and> d1 \<le> d + max 0 (blocks W) \<and> progress_of row = fractions t d d1"
  using assms cols_loop_progress[of g W n t y _ 0 d "flag_after [Load True] c"]
  by (auto simp: row_step_def
      split: if_splits option.splits prod.splits ctl.splits bool.splits)

lemma rows_loop_progress:
  "rows_loop g W H n t y d c = (r, evs, d') \<Longrightarrow>
     0 \<le> d \<Longrightarrow> d + max 0 (blocks W) * max 0 (blocks (H - y)) \<le> INT_MAX \<Longrightarrow>
     d \<le> d' \<and> d' \<le> d + max 0 (blocks W) * max 0 (blocks (H - y))
     \<and> progress_of evs = fractions t d d'"
proof (induction g W H n t y d c arbitrary: r evs d' rule: rows_loop.induct)
  case (1 g W H n t y d c)
  let ?bx = "max 0 (blocks W)"
  show ?case
  proof (cases "y < H")
    case False
    with "1.prems"(1) show ?thesis
      by (simp add: rows_loop.simps row_step_def)
  next
    case y: True
    have split: "?bx * max 0 (blocks (H - y)) = ?bx + ?bx * max 0 (blocks (H - (y + 256)))"
      by (simp add: passes_step[OF y] algebra_simps)
    have nn: "0 \<le> ?bx * max 0 (blocks (H - (y + 256)))"
      by (intro mult_nonneg_nonneg) simp_all
    from "1.prems"(3) nn have row_bound: "d + ?bx \<le> INT_MAX"
      unfolding split by linarith
    show ?thesis
    proof (cases "row_step g W H n t y d c")
      case (Stop res)
      with "1.prems"(1) have "row_step g W H n t y d c = Stop (r, evs, d')"
        by (simp add: rows_loop.simps)
      from row_step_progress(1)[OF "1.prems"(2) row_bound this]
      have st: "d \<le> d'" "d' \<le> d + ?bx" "progress_of evs = fractions t d d'"
        by auto
      from st(2) nn have "d' \<le> d + ?bx * max 0 (blocks (H - y))"
        unfolding split by linarith
      with st show ?thesis by simp
    next
      case (Again row d1 y1)
      from row_step_progress(2)[OF "1.prems"(2) row_bound Again]
      have d1: "d \<le> d1" "d1 \<le> d + ?bx" and row: "progress_of row = fractions t d d1"
        by simp_all
      from Again have y1: "y1 = y + 256"
        by (auto simp: row_step_def int_add_def
            split: if_splits option.splits prod.splits ctl.splits)
      obtain r1 evs1 where rec: "rows_loop g W H n t y1 d1 (flag_after row c) = (r1, evs1, d')"
        and evs: "evs = row @ evs1"
        using "1.prems"(1) Again by (auto simp: rows_loop.simps split: prod.splits)
      from "1.prems"(2,3) d1 y1
      have "0 \<le> d1" "d1 + ?bx * max 0 (blocks (H - y1)) \<le> INT_MAX"
        unfolding split by simp_all
      from "1.IH"[OF Again rec this]
      have IH: "d1 \<le> d'" "d' \<le> d1 + ?bx * max 0 (blocks (H - y1))"
        "progress_of evs1 = fractions t d1 d'"
        by simp_all
      from IH(2) d1(2) have "d' \<le> d + ?bx * max 0 (blocks (H - y))"
        unfolding split y1 by linarith
      with IH(1) d1(1) row evs IH(3) fractions_append[OF d1(1) IH(1), of t] show ?thesis
        by simp
    qed
  qed
qed

lemma processData_ok:
  assumes "\<And>x y b. Read_error g x y b = None" and "\<And>x y b. Write_error g x y b = None"
    and "in_range g" and "1 \<le> sint (RasterCount g)"
  shows "\<exists>evs. processData j g None = (Ret True, evs)
           \<and> tiles_read evs = tile_grid (sint (RasterXSize g)) (sint (RasterYSize g))
           \<and> tiles_written (sint (RasterCount g)) evs
               = tile_grid (sint (RasterXSize g)) (sint (RasterYSize g))
           \<and> progress_of evs
               = fractions (blocks (sint (RasterXSize g)) * blocks (sint (RasterYSize g))) 0
                   (blocks (sint (RasterXSize g)) * blocks (sint (RasterYSize g))) @ [1]"
proof -
  let ?W = "sint (RasterXSize g)" and ?H = "sint (RasterYSize g)" and ?n = "sint (RasterCount g)"
  from assms(3) have bx: "block_count ?W 256 = Some (blocks ?W)"
    and "by": "block_count ?H 256 = Some (blocks ?H)"
    by (simp_all add: in_range_def block_count_in_range)
  have nn: "0 \<le> blocks ?W" "0 \<le> blocks ?H"
    using assms(3) by (simp_all add: in_range_def blocks_def pos_imp_zdiv_nonneg_iff)
  then have "0 \<le> blocks ?W * blocks ?H"
    by (rule mult_nonneg_nonneg)
  with assms(3) have mul: "int_mul (blocks ?W) (blocks ?H) = Some (blocks ?W * blocks ?H)"
    by (simp add: in_range_def int_mul_def in_int_def INT_MIN_def)
  from assms(3) have r: "?n < INT_MAX" "0 \<le> ?W" "?W \<le> INT_MAX - 256" "?H \<le> INT_MAX - 256"
    "blocks ?W * blocks ?H \<le> INT_MAX"
    by (simp_all add: in_range_def)
  from rows_loop_ok[OF assms(1,2,4) r(1,2,3,4), of 0 0 "blocks ?W * blocks ?H"] r(5) nn
  obtain evs where loop: "rows_loop g ?W ?H ?n (blocks ?W * blocks ?H) 0 0 None
      = (Go, evs, blocks ?W * blocks ?H)"
    and tiles: "tiles_read evs = tile_grid ?W ?H" "tiles_written ?n evs = tile_grid ?W ?H"
    by (auto simp: tile_grid_def)
  from r(5) nn have "0 + max 0 (blocks ?W) * max 0 (blocks (?H - 0)) \<le> INT_MAX"
    by simp
  from rows_loop_progress[OF loop _ this]
  have "progress_of evs = fractions (blocks ?W * blocks ?H) 0 (blocks ?W * blocks ?H)"
    by simp
  with loop tiles show ?thesis
    by (simp add: processData_def bx "by" mul Let_def)
qed

section \<open>Progress is monotone\<close>






lemma progress_of_set_options [simp]: "progress_of (set_options opts) = []"
  by (induction opts rule: set_options.induct) auto

lemma progress_of_ready [simp]: "progress_of (ready j) = []"
  by (simp add: ready_def)








section \<open>The tiles and the progress of a whole conversion\<close>

lemma tiles_read_set_options [simp]: "tiles_read (set_options opts) = []"
  by (induction opts rule: set_options.induct) auto

lemma tiles_read_ready [simp]: "tiles_read (ready j) = []"
  by (simp add: ready_def)






section \<open>The tile loop\<close>

lemma sorted_wrt_upto_less: "sorted_wrt (<) [i..j]"
  by (simp add: strict_sorted_iff)

lemma row_major_tile_row: "sorted_wrt row_major (tile_row W y h)"
  unfolding tile_row_def sorted_wrt_map
  by (rule sorted_wrt_mono_rel[OF _ sorted_wrt_upto_less]) simp

lemma row_major_rows:
  "0 \<le> j \<Longrightarrow>
   sorted_wrt row_major (concat (map (\<lambda>m. tile_row W (256 * m) (hh m)) [j..n]))
   \<and> (\<forall>t\<in>set (concat (map (\<lambda>m. tile_row W (256 * m) (hh m)) [j..n])). 256 * j \<le> fst (snd t))"
proof (induction "nat (n + 1 - j)" arbitrary: j)
  case 0
  then show ?case by simp
next
  case (Suc k)
  then have le: "j \<le> n" by simp
  from Suc.hyps(2) have "k = nat (n + 1 - (j + 1))" by simp
  from Suc.hyps(1)[OF this] Suc.prems
  have IH: "sorted_wrt row_major (concat (map (\<lambda>m. tile_row W (256 * m) (hh m)) [j + 1..n]))"
    "\<forall>t\<in>set (concat (map (\<lambda>m. tile_row W (256 * m) (hh m)) [j + 1..n])). 256 * (j + 1) \<le> fst (snd t)"
    by simp_all
  have row: "\<forall>t\<in>set (tile_row W (256 * j) (hh j)). fst (snd t) = 256 * j"
    by (auto simp: tile_row_def)
  have "\<forall>a\<in>set (tile_row W (256 * j) (hh j)).
          \<forall>b\<in>set (concat (map (\<lambda>m. tile_row W (256 * m) (hh m)) [j + 1..n])). row_major a b"
  proof (intro ballI)
    fix a b
    assume "a \<in> set (tile_row W (256 * j) (hh j))"
      and "b \<in> set (concat (map (\<lambda>m. tile_row W (256 * m) (hh m)) [j + 1..n]))"
    with row IH(2) have "fst (snd a) = 256 * j" "256 * (j + 1) \<le> fst (snd b)" by blast+
    then show "row_major a b"
      by (cases a; cases b) simp
  qed
  moreover have "\<forall>t\<in>set (concat (map (\<lambda>m. tile_row W (256 * m) (hh m)) [j..n])). 256 * j \<le> fst (snd t)"
    using row IH(2) by (fastforce simp: upto_rec1[OF le])
  ultimately show ?case
    using IH(1) row_major_tile_row[of W "256 * j" "hh j"]
    by (simp add: upto_rec1[OF le] sorted_wrt_append)
qed

lemma row_major_tile_grid: "sorted_wrt row_major (tile_grid W H)"
  unfolding tile_grid_def using row_major_rows[of 0 W "\<lambda>m. min 256 (H - 256 * m)" "blocks H - 1"]
  by simp

text \<open>
  C1, amended: for a source within \<open>in_range\<close> (width and height at most 2^31 - 257,
  at most 2^31 - 1 tiles) with \<open>W > 0\<close>, \<open>H > 0\<close> and at least one band, a run of
  \<open>processData\<close> that is never cancelled and meets no error visits exactly the tiles of
  \<open>tile_grid W H\<close>, in row-major order. There are \<open>ceil(W/256) * ceil(H/256)\<close> of them,
  each starts inside the raster with width \<open>min 256 (W - x)\<close> and height
  \<open>min 256 (H - y)\<close>, every pixel of the raster lies in exactly one of them, and their
  areas add up to \<open>W * H\<close>. (For a width of 2147483647 the sum
  \<open>nXSize + blockSizeX\<close> overflows \<open>int\<close> before the loop starts.)
\<close>

theorem tile_loop_partition:
  assumes "\<And>x y b. Read_error g x y b = None" and "\<And>x y b. Write_error g x y b = None"
    and "in_range g" and "1 \<le> sint (RasterCount g)"
    and "W = sint (RasterXSize g)" and "H = sint (RasterYSize g)" and "0 < W" and "0 < H"
  shows "fst (processData j g None) = Ret True
       \<and> tiles_read (snd (processData j g None)) = tile_grid W H
       \<and> sorted_wrt row_major (tile_grid W H)
       \<and> int (length (tile_grid W H)) = \<lceil>real_of_int W / 256\<rceil> * \<lceil>real_of_int H / 256\<rceil>
       \<and> list_all (\<lambda>(x, y, w, h). 0 \<le> x \<and> 0 \<le> y \<and> 0 < w \<and> 0 < h
             \<and> w = min 256 (W - x) \<and> h = min 256 (H - y)) (tile_grid W H)
       \<and> (\<forall>px py. 0 \<le> px \<and> px < W \<and> 0 \<le> py \<and> py < H
             \<longrightarrow> length (filter (covers px py) (tile_grid W H)) = 1)
       \<and> sum_list (map area (tile_grid W H)) = W * H"
proof -
  from processData_ok[OF assms(1,2,3,4), of j] assms(5,6)
  have "fst (processData j g None) = Ret True"
    and "tiles_read (snd (processData j g None)) = tile_grid W H"
    by auto
  moreover from assms(7,8)
  have "int (length (tile_grid W H)) = \<lceil>real_of_int W / 256\<rceil> * \<lceil>real_of_int H / 256\<rceil>"
    by (simp add: length_tile_grid blocks_ceiling)
  moreover have "length (filter (covers px py) (tile_grid W H)) = 1"
    if "0 \<le> px \<and> px < W \<and> 0 \<le> py \<and> py < H" for px py
    using that by (simp add: covers_tile_grid)
  moreover from assms(7,8) have "sum_list (map area (tile_grid W H)) = W * H"
    by (simp add: area_tile_grid)
  ultimately show ?thesis
    using tile_grid_clipped[OF assms(7,8)] row_major_tile_grid[of W H] by blast
qed


theorem tile_loop_partition_witness:
  "in_range demo_gdal
   \<and> tiles_read (snd (processData demo_job demo_gdal None))
     = [(0, 0, 256, 256), (256, 0, 256, 256), (512, 0, 88, 256),
        (0, 256, 256, 144), (256, 256, 256, 144), (512, 256, 88, 144)]
   \<and> length (filter (covers 599 399) (tile_grid 600 400)) = 1
   \<and> sum_list (map area (tile_grid 600 400)) = 600 * 400"
proof -
  have r: "in_range demo_gdal"
    by (simp add: in_range_def demo_gdal_def INT_MAX_def blocks_def)
  have g: "tile_grid 600 400
      = [(0, 0, 256, 256), (256, 0, 256, 256), (512, 0, 88, 256),
         (0, 256, 256, 144), (256, 256, 256, 144), (512, 256, 88, 144)]"
    by code_simp
  from tile_loop_partition[of demo_gdal 600 400 demo_job, OF _ _ r]
  have "tiles_read (snd (processData demo_job demo_gdal None)) = tile_grid 600 400
      \<and> length (filter (covers 599 399) (tile_grid 600 400)) = 1
      \<and> sum_list (map area (tile_grid 600 400)) = 600 * 400"
    by (simp add: demo_gdal_def)
  with r show ?thesis
    by (simp only: g)
qed

theorem tile_loop_partition_counterexample:
  "\<not> (\<forall>j g. (\<forall>x y b. Read_error g x y b = None) \<and> (\<forall>x y b. Write_error g x y b = None)
          \<and> 1 \<le> sint (RasterCount g) \<and> 0 < sint (RasterXSize g) \<and> 0 < sint (RasterYSize g)
        \<longrightarrow> int (length (tiles_read (snd (processData j g None))))
            = \<lceil>real_of_int (sint (RasterXSize g)) / 256\<rceil>
              * \<lceil>real_of_int (sint (RasterYSize g)) / 256\<rceil>)"
proof
  let ?g = "demo_gdal\<lparr>RasterXSize := 2147483647\<rparr>"
  assume a: "\<forall>j g. (\<forall>x y b. Read_error g x y b = None) \<and> (\<forall>x y b. Write_error g x y b = None)
          \<and> 1 \<le> sint (RasterCount g) \<and> 0 < sint (RasterXSize g) \<and> 0 < sint (RasterYSize g)
        \<longrightarrow> int (length (tiles_read (snd (processData j g None))))
            = \<lceil>real_of_int (sint (RasterXSize g)) / 256\<rceil>
              * \<lceil>real_of_int (sint (RasterYSize g)) / 256\<rceil>"
  have pd: "processData demo_job ?g None = (Undefined, [])"
    by (simp add: processData_def demo_gdal_def block_count_def int_add_def in_int_def
        INT_MAX_def INT_MIN_def)
  have sizes: "sint (RasterXSize ?g) = 2147483647" "sint (RasterYSize ?g) = 400"
    "sint (RasterCount ?g) = 3"
    by (simp_all add: demo_gdal_def)
  have io: "(\<forall>x y b. Read_error ?g x y b = None) \<and> (\<forall>x y b. Write_error ?g x y b = None)"
    by (simp add: demo_gdal_def)
  from a[rule_format, of ?g demo_job] io
  have "int (length (tiles_read (snd (processData demo_job ?g None))))
      = \<lceil>real_of_int 2147483647 / 256\<rceil> * \<lceil>real_of_int 400 / 256\<rceil>"
    unfolding sizes by simp
  then have "(0::int) = \<lceil>real_of_int 2147483647 / 256\<rceil> * \<lceil>real_of_int 400 / 256\<rceil>"
    unfolding pd by simp
  moreover have "\<lceil>real_of_int 2147483647 / 256\<rceil> = 8388608" "\<lceil>real_of_int 400 / 256\<rceil> = 2"
    by (simp_all add: ceiling_divide_eq_div[of _ 256, simplified])
  ultimately show False
    by simp
qed


section \<open>Cancellation\<close>

lemma flag_after_simps [simp]:
  "flag_after [] c = c"
  "flag_after (evs @ evs') c = flag_after evs' (flag_after evs c)"
  by (auto simp: flag_after_def split: option.splits)





text \<open>With the flag set on entry, a loop reads it once at most and ends.\<close>

lemma col_step_set:
  "\<not> isConverting c \<Longrightarrow>
     col_step g W n t y h x d c = Stop (Go, if x < W then [Load False] else [], d)"
  by (simp add: col_step_def)

lemma cols_loop_set:
  "\<not> isConverting c \<Longrightarrow>
     cols_loop g W n t y h x d c = (Go, if x < W then [Load False] else [], d)"
  by (simp add: cols_loop.simps col_step_set)

















lemma cols_loop_guarded: "cols_loop g W n t y h x d c = (r, evs, d') \<Longrightarrow> io_guarded evs"
  by (subst (asm) cols_loop.simps)
     (auto simp: col_step_def Let_def
       split: step.splits if_splits option.splits prod.splits ctl.splits)








lemma consistent_Load [simp]:
  "consistent c (Load b # evs) \<longleftrightarrow> b = isConverting c \<and> consistent (flag_after [Load b] c) evs"
  by (cases b) auto












lemma signals_append [simp]: "signals (evs @ evs') = signals evs @ signals evs'"
  by (simp add: signals_def)





section \<open>Cancellation commits the tiles written so far\<close>





section \<open>The check after the loop\<close>

text \<open>
  A flag that is set late: a piece of the run that is over before the flag is set runs
  as if the flag were never set.
\<close>

lemma flag_after_Some: "flag_after evs (Some k) = Some (k - length evs)"
  by (simp add: flag_after_def)

lemma isConverting_Some: "isConverting (Some k) \<longleftrightarrow> 0 < k"
  by (simp add: isConverting_def)

lemma tile_body_late:
  assumes "tile_body g x y w h n None = (r, evs)" and "length evs \<le> k"
  shows "tile_body g x y w h n (Some k) = (r, evs)"
  using assms
  by (auto simp: tile_body_def flag_after_Some isConverting_Some
      split: if_splits prod.splits ctl.splits)

lemma col_step_late:
  "col_step g W n t y h x d None = Stop (r, evs, d') \<Longrightarrow> length evs \<le> k
     \<Longrightarrow> col_step g W n t y h x d (Some k) = Stop (r, evs, d')"
  "col_step g W n t y h x d None = Again tile d1 x1 \<Longrightarrow> length tile \<le> k
     \<Longrightarrow> col_step g W n t y h x d (Some k) = Again tile d1 x1"
proof -
  have body: "tile_body g x y w h n (Some (k - Suc 0)) = (r', tevs)"
    if "tile_body g x y w h n None = (r', tevs)" and "length tevs < k" for w r' tevs
    using tile_body_late[OF that(1), of "k - Suc 0"] that(2) by simp
  show "col_step g W n t y h x d (Some k) = Stop (r, evs, d')"
    if "col_step g W n t y h x d None = Stop (r, evs, d')" and "length evs \<le> k"
    using that
    by (auto simp: col_step_def Let_def flag_after_Some isConverting_Some body
        split: if_splits option.splits prod.splits ctl.splits)
  show "col_step g W n t y h x d (Some k) = Again tile d1 x1"
    if "col_step g W n t y h x d None = Again tile d1 x1" and "length tile \<le> k"
    using that
    by (auto simp: col_step_def Let_def flag_after_Some isConverting_Some body
        split: if_splits option.splits prod.splits ctl.splits)
qed

lemma cols_loop_late:
  "cols_loop g W n t y h x d c = (r, evs, d') \<Longrightarrow> c = None \<Longrightarrow> length evs \<le> k
     \<Longrightarrow> cols_loop g W n t y h x d (Some k) = (r, evs, d')"
proof (induction g W n t y h x d c arbitrary: r evs d' k rule: cols_loop.induct)
  case (1 g W n t y h x d c)
  note c = \<open>c = None\<close>
  show ?case
  proof (cases "col_step g W n t y h x d None")
    case (Stop res)
    with "1.prems" have res: "res = (r, evs, d')"
      by (simp add: cols_loop.simps c)
    from col_step_late(1)[OF Stop[unfolded res] "1.prems"(3)] show ?thesis
      by (simp add: cols_loop.simps)
  next
    case (Again tile d1 x1)
    with "1.prems" obtain evs1 where
      rec: "cols_loop g W n t y h x1 d1 (flag_after tile c) = (r, evs1, d')"
      and evs: "evs = tile @ evs1"
      by (auto simp: cols_loop.simps c split: prod.splits)
    from evs "1.prems"(3) have len: "length tile \<le> k" "length evs1 \<le> k - length tile"
      by simp_all
    from "1.IH"[OF Again[folded c] rec _ len(2)]
    have "cols_loop g W n t y h x1 d1 (Some (k - length tile)) = (r, evs1, d')"
      by (simp add: c)
    with col_step_late(2)[OF Again len(1)] show ?thesis
      by (simp add: cols_loop.simps[of g W n t y h x d "Some k"] flag_after_Some evs)
  qed
qed

lemma row_step_late:
  "row_step g W H n t y d None = Stop (r, evs, d') \<Longrightarrow> length evs \<le> k
     \<Longrightarrow> row_step g W H n t y d (Some k) = Stop (r, evs, d')"
  "row_step g W H n t y d None = Again row d1 y1 \<Longrightarrow> length row \<le> k
     \<Longrightarrow> row_step g W H n t y d (Some k) = Again row d1 y1"
proof -
  have cols: "cols_loop g W n t y h 0 d (Some (k - Suc 0)) = (r', cevs, d'')"
    if "cols_loop g W n t y h 0 d None = (r', cevs, d'')" and "length cevs < k" for h r' cevs d''
    using cols_loop_late[OF that(1) refl, of "k - Suc 0"] that(2) by simp
  show "row_step g W H n t y d (Some k) = Stop (r, evs, d')"
    if "row_step g W H n t y d None = Stop (r, evs, d')" and "length evs \<le> k"
    using that
    by (auto simp: row_step_def flag_after_Some isConverting_Some cols
        split: if_splits option.splits prod.splits ctl.splits)
  show "row_step g W H n t y d (Some k) = Again row d1 y1"
    if "row_step g W H n t y d None = Again row d1 y1" and "length row \<le> k"
    using that
    by (auto simp: row_step_def flag_after_Some isConverting_Some cols
        split: if_splits option.splits prod.splits ctl.splits)
qed

lemma rows_loop_late:
  "rows_loop g W H n t y d c = (r, evs, d') \<Longrightarrow> c = None \<Longrightarrow> length evs \<le> k
     \<Longrightarrow> rows_loop g W H n t y d (Some k) = (r, evs, d')"
proof (induction g W H n t y d c arbitrary: r evs d' k rule: rows_loop.induct)
  case (1 g W H n t y d c)
  note c = \<open>c = None\<close>
  show ?case
  proof (cases "row_step g W H n t y d None")
    case (Stop res)
    with "1.prems" have res: "res = (r, evs, d')"
      by (simp add: rows_loop.simps c)
    from row_step_late(1)[OF Stop[unfolded res] "1.prems"(3)] show ?thesis
      by (simp add: rows_loop.simps)
  next
    case (Again row d1 y1)
    with "1.prems" obtain evs1 where
      rec: "rows_loop g W H n t y1 d1 (flag_after row c) = (r, evs1, d')"
      and evs: "evs = row @ evs1"
      by (auto simp: rows_loop.simps c split: prod.splits)
    from evs "1.prems"(3) have len: "length row \<le> k" "length evs1 \<le> k - length row"
      by simp_all
    from "1.IH"[OF Again[folded c] rec _ len(2)]
    have "rows_loop g W H n t y1 d1 (Some (k - length row)) = (r, evs1, d')"
      by (simp add: c)
    with row_step_late(2)[OF Again len(1)] show ?thesis
      by (simp add: rows_loop.simps[of g W H n t y d "Some k"] flag_after_Some evs)
  qed
qed

end
